theory Spec2Isabelle
  imports Complex_Main
begin

section \<open>Segmentation-aware parser evaluation (lstm_parser/evaluate.py)\<close>

text \<open>
  A shallow embedding of the evaluation functions of \<^verbatim>\<open>evaluate.py\<close>.
  Python exceptions are values of \<open>py_error\<close>; a function that may raise returns
  \<open>py_error + 'a\<close>. Token counts, offsets and word indices are non-negative by
  construction and are natural numbers; the head index of a token is supplied by the
  caller and is an integer, so that a list is indexed with it the way Python does
  (negative indices count from the end, anything else out of range raises).
  The true division \<^verbatim>\<open>/\<close> of the source is modelled by exact rational
  division, raising \<open>ZeroDivisionError\<close> on a zero divisor; the rounding of
  floating-point arithmetic is not modelled.
\<close>

subsection \<open>Errors and list access\<close>

datatype py_error = IndexError | ZeroDivisionError | TypeError

definition bind_result :: "py_error + 'a \<Rightarrow> ('a \<Rightarrow> py_error + 'b) \<Rightarrow> py_error + 'b" where
  "bind_result m f = (case m of Inl e \<Rightarrow> Inl e | Inr x \<Rightarrow> f x)"

definition py_get :: "'a list \<Rightarrow> int \<Rightarrow> py_error + 'a" where
  "py_get xs i =
     (let n = int (length xs) in
      if 0 \<le> i \<and> i < n then Inr (xs ! nat i)
      else if - n \<le> i \<and> i < 0 then Inr (xs ! nat (n + i))
      else Inl IndexError)"

definition py_div :: "rat \<Rightarrow> rat \<Rightarrow> py_error + rat" where
  "py_div a b = (if b = 0 then Inl ZeroDivisionError else Inr (a / b))"

subsection \<open>Token records\<close>

text \<open>
  A predicted token is a dictionary and a gold token an object in the source; both carry
  the fields \<^verbatim>\<open>word\<close>, \<^verbatim>\<open>pos\<close>, \<^verbatim>\<open>head_idx\<close> and
  \<^verbatim>\<open>dep_label\<close>.
\<close>

record word_info =
  word :: string
  pos :: string
  head_idx :: int
  dep_label :: string

subsection \<open>generate_start_end_map\<close>

text \<open>
  One entry \<^verbatim>\<open>{'end': ..., 'word_idx': ...}\<close> of the start-end map; both fields
  are \<^verbatim>\<open>None\<close> until a word starting at that offset is recorded.
\<close>

record span_entry =
  entry_end :: "nat option"
  entry_word_idx :: "nat option"

definition empty_entry :: span_entry where
  "empty_entry = \<lparr>entry_end = None, entry_word_idx = None\<rparr>"

text \<open>
  The loop \<^verbatim>\<open>for word_idx, word in enumerate(data_list)\<close>: the arguments are the
  remaining words, the running \<^verbatim>\<open>word_idx\<close>, \<^verbatim>\<open>last_idx\<close> and the map
  built so far. Writing at \<^verbatim>\<open>data_map[start_idx]\<close> raises when
  \<^verbatim>\<open>start_idx\<close> is not below the length of the map.
\<close>

fun generate_loop :: "string list \<Rightarrow> nat \<Rightarrow> nat \<Rightarrow> span_entry list \<Rightarrow> py_error + span_entry list" where
  "generate_loop [] word_idx last_idx data_map = Inr data_map"
| "generate_loop (w # ws) word_idx last_idx data_map =
     (let start_idx = last_idx;
          end_idx = start_idx + length w
      in if start_idx < length data_map
         then generate_loop ws (Suc word_idx) end_idx
                (data_map[start_idx := \<lparr>entry_end = Some end_idx, entry_word_idx = Some word_idx\<rparr>])
         else Inl IndexError)"

definition generate_start_end_map :: "string list \<Rightarrow> py_error + span_entry list" where
  "generate_start_end_map data_list =
     (let n_len = sum_list (map length data_list);
          data_map = replicate n_len empty_entry
      in generate_loop data_list 0 0 data_map)"

subsection \<open>map_predicted_with_gold_words\<close>

text \<open>
  One iteration of \<^verbatim>\<open>for start_idx in range(len(predicted_index_map))\<close> on the
  state \<open>(two_set_map, correct_count)\<close>. The gold map is indexed only when the
  predicted entry has an end (the \<^verbatim>\<open>and\<close> of the source short-circuits); the
  additions \<^verbatim>\<open>predicted_word_idx + 1\<close> and \<^verbatim>\<open>gold_word_idx + 1\<close> raise
  a \<open>TypeError\<close> on \<^verbatim>\<open>None\<close>.
\<close>

definition map_step ::
  "span_entry list \<Rightarrow> span_entry list \<Rightarrow> nat \<Rightarrow> nat option list \<times> nat \<Rightarrow> py_error + (nat option list \<times> nat)" where
  "map_step predicted_index_map gold_index_map start_idx st =
     (let two_set_map = fst st;
          correct_count = snd st;
          end_idx = entry_end (predicted_index_map ! start_idx);
          predicted_word_idx = entry_word_idx (predicted_index_map ! start_idx)
      in case end_idx of
           None \<Rightarrow> Inr st
         | Some e \<Rightarrow>
             if start_idx < length gold_index_map
             then (if entry_end (gold_index_map ! start_idx) = Some e
                   then (case entry_word_idx (gold_index_map ! start_idx) of
                           None \<Rightarrow> Inl TypeError
                         | Some gold_word_idx \<Rightarrow>
                             (case predicted_word_idx of
                                None \<Rightarrow> Inl TypeError
                              | Some p \<Rightarrow>
                                  if p + 1 < length two_set_map
                                  then Inr (two_set_map[p + 1 := Some (gold_word_idx + 1)],
                                            correct_count + 1)
                                  else Inl IndexError))
                   else Inr st)
             else Inl IndexError)"

fun map_loop ::
  "span_entry list \<Rightarrow> span_entry list \<Rightarrow> nat list \<Rightarrow> nat option list \<times> nat \<Rightarrow> py_error + (nat option list \<times> nat)" where
  "map_loop predicted_index_map gold_index_map [] st = Inr st"
| "map_loop predicted_index_map gold_index_map (start_idx # rest) st =
     (case map_step predicted_index_map gold_index_map start_idx st of
        Inl e \<Rightarrow> Inl e
      | Inr st' \<Rightarrow> map_loop predicted_index_map gold_index_map rest st')"

definition map_predicted_with_gold_words ::
  "word_info list \<Rightarrow> word_info list \<Rightarrow> py_error + (nat option list \<times> nat)" where
  "map_predicted_with_gold_words predicted_list gold_list =
     bind_result (generate_start_end_map (map word predicted_list)) (\<lambda>predicted_index_map.
     bind_result (generate_start_end_map (map word gold_list)) (\<lambda>gold_index_map.
       map_loop predicted_index_map gold_index_map [0..<length predicted_index_map]
         ((replicate (length predicted_list + 1) None)[0 := Some 0], 0)))"

subsection \<open>get_pos_match and get_uas_las_match\<close>

text \<open>
  Both loops run over \<^verbatim>\<open>enumerate(predicted_list)\<close>; the arguments are the
  remaining predicted tokens, the running \<^verbatim>\<open>word_idx\<close> and the counters.
  The alignment map is read at \<^verbatim>\<open>word_idx + 1\<close> and at the predicted head, the
  gold list at \<^verbatim>\<open>word_gold_index - 1\<close>, each with Python's indexing.
\<close>

fun pos_loop ::
  "word_info list \<Rightarrow> nat \<Rightarrow> word_info list \<Rightarrow> nat option list \<Rightarrow> nat \<Rightarrow> py_error + nat" where
  "pos_loop [] word_idx gold_list predict_gold_map correct_count = Inr correct_count"
| "pos_loop (wi # rest) word_idx gold_list predict_gold_map correct_count =
     (case py_get predict_gold_map (int word_idx + 1) of
        Inl e \<Rightarrow> Inl e
      | Inr None \<Rightarrow> pos_loop rest (Suc word_idx) gold_list predict_gold_map correct_count
      | Inr (Some word_gold_index) \<Rightarrow>
          (case py_get gold_list (int word_gold_index - 1) of
             Inl e \<Rightarrow> Inl e
           | Inr gw \<Rightarrow>
               pos_loop rest (Suc word_idx) gold_list predict_gold_map
                 (if pos wi = pos gw then correct_count + 1 else correct_count)))"

definition get_pos_match :: "word_info list \<Rightarrow> word_info list \<Rightarrow> nat option list \<Rightarrow> py_error + nat" where
  "get_pos_match predicted_list gold_list predict_gold_map =
     pos_loop predicted_list 0 gold_list predict_gold_map 0"

fun uas_las_loop ::
  "word_info list \<Rightarrow> nat \<Rightarrow> word_info list \<Rightarrow> nat option list \<Rightarrow> nat \<times> nat \<Rightarrow> py_error + (nat \<times> nat)" where
  "uas_las_loop [] word_idx gold_list predict_gold_map cnt = Inr cnt"
| "uas_las_loop (wi # rest) word_idx gold_list predict_gold_map cnt =
     (case py_get predict_gold_map (int word_idx + 1) of
        Inl e \<Rightarrow> Inl e
      | Inr None \<Rightarrow> uas_las_loop rest (Suc word_idx) gold_list predict_gold_map cnt
      | Inr (Some word_gold_index) \<Rightarrow>
          (case py_get gold_list (int word_gold_index - 1) of
             Inl e \<Rightarrow> Inl e
           | Inr gw \<Rightarrow>
               (case py_get predict_gold_map (head_idx wi) of
                  Inl e \<Rightarrow> Inl e
                | Inr mapped_head \<Rightarrow>
                    uas_las_loop rest (Suc word_idx) gold_list predict_gold_map
                      (if map_option int mapped_head = Some (head_idx gw)
                       then (fst cnt + 1,
                             if dep_label wi = dep_label gw then snd cnt + 1 else snd cnt)
                       else cnt))))"

definition get_uas_las_match ::
  "word_info list \<Rightarrow> word_info list \<Rightarrow> nat option list \<Rightarrow> py_error + (nat \<times> nat)" where
  "get_uas_las_match predicted_list gold_list predict_gold_map =
     uas_las_loop predicted_list 0 gold_list predict_gold_map (0, 0)"

subsection \<open>get_f1_score, get_parser_evaluation and get_epoch_evaluation\<close>

definition get_f1_score :: "rat \<Rightarrow> rat \<Rightarrow> rat" where
  "get_f1_score p r = (if p + r > 0 then (2 * (p * r)) / (p + r) else 0)"

record evaluation =
  predicted_list_len :: nat
  gold_list_len :: nat
  correct_count :: nat
  precision :: rat
  recall :: rat
  f1_score :: rat
  pos_match :: nat
  pos_acc :: rat
  uas_match :: nat
  uas_score :: rat
  uas_precision :: rat
  uas_recall :: rat
  uas_f1_score :: rat
  las_match :: nat
  las_score :: rat
  las_precision :: rat
  las_recall :: rat
  las_f1_score :: rat

text \<open>
  The guarded rate \<^verbatim>\<open>(x / correct_count) * 100 if correct_count > 0 else 0\<close> and
  the unguarded rate \<^verbatim>\<open>(x / n) * 100\<close>.
\<close>

definition guarded_rate :: "nat \<Rightarrow> nat \<Rightarrow> py_error + rat" where
  "guarded_rate x c =
     (if c > 0 then bind_result (py_div (of_nat x) (of_nat c)) (\<lambda>q. Inr (q * 100)) else Inr 0)"

definition rate :: "nat \<Rightarrow> nat \<Rightarrow> py_error + rat" where
  "rate x n = bind_result (py_div (of_nat x) (of_nat n)) (\<lambda>q. Inr (q * 100))"

definition get_parser_evaluation :: "word_info list \<Rightarrow> word_info list \<Rightarrow> py_error + evaluation" where
  "get_parser_evaluation predicted_list gold_list =
     bind_result (map_predicted_with_gold_words predicted_list gold_list) (\<lambda>(predict_gold_map, cc).
     bind_result (get_pos_match predicted_list gold_list predict_gold_map) (\<lambda>pos_correct_count.
     bind_result (get_uas_las_match predicted_list gold_list predict_gold_map) (\<lambda>(uas, las).
     bind_result (rate cc (length predicted_list)) (\<lambda>prec.
     bind_result (rate cc (length gold_list)) (\<lambda>rec.
     bind_result (guarded_rate pos_correct_count cc) (\<lambda>pacc.
     bind_result (guarded_rate uas cc) (\<lambda>uscore.
     bind_result (rate uas (length predicted_list)) (\<lambda>uprec.
     bind_result (rate uas (length gold_list)) (\<lambda>urec.
     bind_result (guarded_rate las cc) (\<lambda>lscore.
     bind_result (rate las (length predicted_list)) (\<lambda>lprec.
     bind_result (rate las (length gold_list)) (\<lambda>lrec.
       Inr \<lparr>predicted_list_len = length predicted_list,
            gold_list_len = length gold_list,
            correct_count = cc,
            precision = prec,
            recall = rec,
            f1_score = get_f1_score prec rec,
            pos_match = pos_correct_count,
            pos_acc = pacc,
            uas_match = uas,
            uas_score = uscore,
            uas_precision = uprec,
            uas_recall = urec,
            uas_f1_score = get_f1_score uprec urec,
            las_match = las,
            las_score = lscore,
            las_precision = lprec,
            las_recall = lrec,
            las_f1_score = get_f1_score lprec lrec\<rparr>))))))))))))"

text \<open>
  The epoch record. Its fields \<^verbatim>\<open>uas_f1_score\<close> and \<^verbatim>\<open>las_f1_score\<close>
  carry the prefix \<open>epoch_\<close> here, the names being taken by the sentence record.
\<close>

record epoch_eval =
  word_precision :: rat
  word_recall :: rat
  word_f1_score :: rat
  pos_accuracy :: rat
  uas_accuracy :: rat
  las_accuracy :: rat
  epoch_uas_f1_score :: rat
  epoch_las_f1_score :: rat
  correct_words :: nat
  all_gold_words :: nat
  all_predicted_words :: nat
  correct_pos :: nat
  correct_uas :: nat
  correct_las :: nat

definition get_epoch_evaluation :: "evaluation list \<Rightarrow> py_error + epoch_eval" where
  "get_epoch_evaluation evaluation_list =
     (let n_eval = length evaluation_list in
      bind_result (py_div (sum_list (map precision evaluation_list)) (of_nat n_eval)) (\<lambda>wp.
      bind_result (py_div (sum_list (map recall evaluation_list)) (of_nat n_eval)) (\<lambda>wr.
      bind_result (py_div (sum_list (map f1_score evaluation_list)) (of_nat n_eval)) (\<lambda>wf.
      bind_result (py_div (sum_list (map pos_acc evaluation_list)) (of_nat n_eval)) (\<lambda>pa.
      bind_result (py_div (sum_list (map uas_score evaluation_list)) (of_nat n_eval)) (\<lambda>ua.
      bind_result (py_div (sum_list (map las_score evaluation_list)) (of_nat n_eval)) (\<lambda>la.
      bind_result (py_div (sum_list (map uas_f1_score evaluation_list)) (of_nat n_eval)) (\<lambda>uf.
      bind_result (py_div (sum_list (map las_f1_score evaluation_list)) (of_nat n_eval)) (\<lambda>lf.
        Inr \<lparr>word_precision = wp,
             word_recall = wr,
             word_f1_score = wf,
             pos_accuracy = pa,
             uas_accuracy = ua,
             las_accuracy = la,
             epoch_uas_f1_score = uf,
             epoch_las_f1_score = lf,
             correct_words = sum_list (map correct_count evaluation_list),
             all_gold_words = sum_list (map gold_list_len evaluation_list),
             all_predicted_words = sum_list (map predicted_list_len evaluation_list),
             correct_pos = sum_list (map pos_match evaluation_list),
             correct_uas = sum_list (map uas_match evaluation_list),
             correct_las = sum_list (map las_match evaluation_list)\<rparr>)))))))))"

section \<open>Auxiliary definitions\<close>

text \<open>
  The definitions below are not part of the source. They describe what the loops of the
  source compute (token by token instead of offset by offset), state well-formedness of
  the input, phrase the specified properties, and fix the example sentences.
\<close>

text \<open>
  The start-end map as a function of the token lengths: a token of length \<open>n\<close>
  starting at offset \<open>off\<close> contributes its entry (end \<open>off + n\<close>, its index)
  followed by \<open>n - 1\<close> empty entries. For non-empty tokens this is what
  \<open>generate_start_end_map\<close> returns (lemma \<open>generate_start_end_map_spans\<close>).
\<close>

fun spans :: "nat \<Rightarrow> nat \<Rightarrow> nat list \<Rightarrow> span_entry list" where
  "spans k off [] = []"
| "spans k off (n # ns) =
     \<lparr>entry_end = Some (off + n), entry_word_idx = Some k\<rparr>
       # replicate (n - 1) empty_entry @ spans (Suc k) (off + n) ns"

text \<open>
  The start offset of token \<open>j\<close> in a sequence with token lengths \<open>ns\<close>: the
  total length of the tokens before it.
\<close>

definition offset :: "nat list \<Rightarrow> nat \<Rightarrow> nat" where
  "offset ns j = sum_list (take j ns)"

text \<open>
  In a start-end map an entry with an end also has a word index.
\<close>

definition entries_ok :: "span_entry list \<Rightarrow> bool" where
  "entries_ok m = (\<forall>i < length m. entry_end (m ! i) \<noteq> None \<longrightarrow> entry_word_idx (m ! i) \<noteq> None)"

text \<open>
  The alignment loop seen token by token: the predicted token with span \<open>[s, e)\<close>
  is mapped to the gold word index plus one when the gold map has the same end at \<open>s\<close>,
  and stays unmapped otherwise. \<open>align\<close> lists these values for consecutive tokens,
  \<open>defined_count\<close> counts the mapped ones.
\<close>

definition match_at :: "span_entry list \<Rightarrow> nat \<Rightarrow> nat \<Rightarrow> nat option" where
  "match_at gim s e =
     (if entry_end (gim ! s) = Some e then map_option Suc (entry_word_idx (gim ! s)) else None)"

fun align :: "span_entry list \<Rightarrow> nat \<Rightarrow> nat list \<Rightarrow> nat option list" where
  "align gim off [] = []"
| "align gim off (n # ns) = match_at gim off (off + n) # align gim (off + n) ns"

definition defined_count :: "nat option list \<Rightarrow> nat" where
  "defined_count es = length (filter (\<lambda>x. x \<noteq> None) es)"

text \<open>
  The lengths of the token texts of a sequence; their sum is the length of its character
  stream.
\<close>

definition token_lengths :: "word_info list \<Rightarrow> nat list" where
  "token_lengths ws = map (\<lambda>w. length (word w)) ws"

text \<open>
  The span part of well-formedness: no token text is empty, and every predicted token
  starts inside the gold character stream. The latter holds whenever the predicted stream
  is not longer than the gold one (lemma \<open>alignableI\<close>), in particular when both
  sequences segment the same character stream.
\<close>

definition alignable :: "word_info list \<Rightarrow> word_info list \<Rightarrow> bool" where
  "alignable predicted_list gold_list \<longleftrightarrow>
     (\<forall>w\<in>set predicted_list. word w \<noteq> []) \<and>
     (\<forall>w\<in>set gold_list. word w \<noteq> []) \<and>
     (\<forall>k\<in>set [0..<length predicted_list].
        offset (token_lengths predicted_list) k < sum_list (token_lengths gold_list))"

text \<open>
  The entries \<open>1, \<dots>, N\<close> of the alignment map of two alignable sequences.
\<close>

definition alignment :: "word_info list \<Rightarrow> word_info list \<Rightarrow> nat option list" where
  "alignment predicted_list gold_list =
     align (spans 0 0 (token_lengths gold_list)) 0 (token_lengths predicted_list)"

text \<open>
  What the attribute loops count, on a predicted token paired with its entry of the
  alignment map \<open>m\<close>.
\<close>

definition pos_hit :: "word_info list \<Rightarrow> word_info \<times> nat option \<Rightarrow> bool" where
  "pos_hit gold_list we =
     (case snd we of None \<Rightarrow> False | Some g \<Rightarrow> pos (fst we) = pos (gold_list ! (g - 1)))"

definition uas_hit :: "word_info list \<Rightarrow> nat option list \<Rightarrow> word_info \<times> nat option \<Rightarrow> bool" where
  "uas_hit gold_list m we =
     (case snd we of None \<Rightarrow> False
      | Some g \<Rightarrow> map_option int (m ! nat (head_idx (fst we))) = Some (head_idx (gold_list ! (g - 1))))"

definition las_hit :: "word_info list \<Rightarrow> nat option list \<Rightarrow> word_info \<times> nat option \<Rightarrow> bool" where
  "las_hit gold_list m we =
     (uas_hit gold_list m we \<and>
      (case snd we of None \<Rightarrow> False | Some g \<Rightarrow> dep_label (fst we) = dep_label (gold_list ! (g - 1))))"

text \<open>
  Every defined entry is a 1-based index into the gold list.
\<close>

definition entries_in_gold :: "nat option list \<Rightarrow> word_info list \<Rightarrow> bool" where
  "entries_in_gold es gold_list = (\<forall>e\<in>set es. \<forall>g. e = Some g \<longrightarrow> 1 \<le> g \<and> g \<le> length gold_list)"

text \<open>
  Well-formed input: alignable spans, and every predicted head index is \<open>0\<close> (ROOT) or the
  1-based index of a token of the predicted sequence.
\<close>

definition well_formed :: "word_info list \<Rightarrow> word_info list \<Rightarrow> bool" where
  "well_formed predicted_list gold_list \<longleftrightarrow>
     alignable predicted_list gold_list \<and>
     (\<forall>w\<in>set predicted_list. 0 \<le> head_idx w \<and> head_idx w \<le> int (length predicted_list))"

text \<open>
  A count as a percentage of a total.
\<close>

definition percent :: "nat \<Rightarrow> nat \<Rightarrow> rat" where
  "percent x n = of_nat x / of_nat n * 100"

text \<open>
  The counts of a sentence as functions of the two sequences.
\<close>

definition pos_count :: "word_info list \<Rightarrow> word_info list \<Rightarrow> nat" where
  "pos_count predicted_list gold_list =
     length (filter (pos_hit gold_list) (zip predicted_list (alignment predicted_list gold_list)))"

definition uas_count :: "word_info list \<Rightarrow> word_info list \<Rightarrow> nat" where
  "uas_count predicted_list gold_list =
     length (filter (uas_hit gold_list (Some 0 # alignment predicted_list gold_list))
               (zip predicted_list (alignment predicted_list gold_list)))"

definition las_count :: "word_info list \<Rightarrow> word_info list \<Rightarrow> nat" where
  "las_count predicted_list gold_list =
     length (filter (las_hit gold_list (Some 0 # alignment predicted_list gold_list))
               (zip predicted_list (alignment predicted_list gold_list)))"

definition seg_count :: "word_info list \<Rightarrow> word_info list \<Rightarrow> nat" where
  "seg_count predicted_list gold_list = defined_count (alignment predicted_list gold_list)"

text \<open>
  A rate lies in the closed interval from 0 to 100.
\<close>

definition in_percent_range :: "rat \<Rightarrow> bool" where
  "in_percent_range x \<longleftrightarrow> 0 \<le> x \<and> x \<le> 100"

text \<open>
  A token record from its four fields, for the example sentences.
\<close>

definition tok :: "string \<Rightarrow> string \<Rightarrow> int \<Rightarrow> string \<Rightarrow> word_info" where
  "tok w p h d = \<lparr>word = w, pos = p, head_idx = h, dep_label = d\<rparr>"

text \<open>
  Unlabeled and labeled correctness of the predicted token with 1-based index \<open>p\<close>, as
  the Attribute Scorer is specified: \<open>p\<close> is aligned to a gold token \<open>g\<close>, the
  alignment map is defined at the predicted head of \<open>p\<close> and its value there is the
  head index of \<open>g\<close>; for labeled correctness the dependency labels agree as well.
\<close>

definition unlabeled_correct :: "word_info list \<Rightarrow> word_info list \<Rightarrow> nat option list \<Rightarrow> nat \<Rightarrow> bool" where
  "unlabeled_correct predicted_list gold_list m p =
     (case m ! p of
        None \<Rightarrow> False
      | Some g \<Rightarrow>
          (case m ! nat (head_idx (predicted_list ! (p - 1))) of
             None \<Rightarrow> False
           | Some v \<Rightarrow> int v = head_idx (gold_list ! (g - 1))))"

definition labeled_correct :: "word_info list \<Rightarrow> word_info list \<Rightarrow> nat option list \<Rightarrow> nat \<Rightarrow> bool" where
  "labeled_correct predicted_list gold_list m p =
     (unlabeled_correct predicted_list gold_list m p \<and>
      (case m ! p of
         None \<Rightarrow> False
       | Some g \<Rightarrow> dep_label (predicted_list ! (p - 1)) = dep_label (gold_list ! (g - 1))))"

text \<open>
  Example sentences. Three tokens with identical spans, the label of the last one differing:
\<close>

definition c2_predicted :: "word_info list" where
  "c2_predicted = [tok ''ab'' ''N'' 2 ''subj'', tok ''cd'' ''V'' 0 ''root'', tok ''e'' ''N'' 2 ''obj'']"

definition c2_gold :: "word_info list" where
  "c2_gold = [tok ''ab'' ''N'' 2 ''subj'', tok ''cd'' ''V'' 0 ''root'', tok ''e'' ''N'' 2 ''iobj'']"

text \<open>
  A predicted stream longer than the gold stream, with a token starting beyond it:
\<close>

definition c3_predicted :: "word_info list" where
  "c3_predicted = [tok ''ab'' ''N'' 0 ''root'', tok ''c'' ''V'' 1 ''obj'']"

definition c3_gold :: "word_info list" where
  "c3_gold = [tok ''ab'' ''N'' 0 ''root'']"

text \<open>
  A predicted stream shorter than the gold stream:
\<close>

definition c3_short_predicted :: "word_info list" where
  "c3_short_predicted = [tok ''ab'' ''N'' 0 ''root'']"

definition c3_long_gold :: "word_info list" where
  "c3_long_gold = [tok ''ab'' ''N'' 0 ''root'', tok ''c'' ''V'' 1 ''obj'']"

text \<open>
  Two sequences over the same four characters with no common span:
\<close>

definition c5_predicted :: "word_info list" where
  "c5_predicted = [tok ''ab'' ''N'' 2 ''subj'', tok ''cd'' ''V'' 0 ''root'']"

definition c5_gold :: "word_info list" where
  "c5_gold = [tok ''a'' ''N'' 2 ''subj'', tok ''bcd'' ''V'' 0 ''root'']"

text \<open>
  A gold sentence of one token:
\<close>

definition c1_gold :: "word_info list" where
  "c1_gold = [tok ''ab'' ''N'' 0 ''root'']"

text \<open>
  Two predicted tokens against three gold tokens, one span in common:
\<close>

definition c4_predicted :: "word_info list" where
  "c4_predicted = [tok ''ab'' ''N'' 0 ''root'', tok ''cd'' ''V'' 1 ''obj'']"

definition c4_gold :: "word_info list" where
  "c4_gold = [tok ''ab'' ''N'' 0 ''root'', tok ''c'' ''V'' 1 ''obj'', tok ''d'' ''N'' 2 ''obj'']"

text \<open>
  Plain attachment and label accuracy of two sequences of equal length: the share of
  positions at which the head indices (and, for the label accuracy, also the dependency
  labels) of the two tokens agree, times 100.
\<close>

definition attachment_accuracy :: "word_info list \<Rightarrow> word_info list \<Rightarrow> rat" where
  "attachment_accuracy predicted_list gold_list =
     of_nat (length (filter (\<lambda>ab. head_idx (fst ab) = head_idx (snd ab)) (zip predicted_list gold_list)))
       / of_nat (length predicted_list) * 100"

definition label_accuracy :: "word_info list \<Rightarrow> word_info list \<Rightarrow> rat" where
  "label_accuracy predicted_list gold_list =
     of_nat (length (filter (\<lambda>ab. head_idx (fst ab) = head_idx (snd ab)
                                  \<and> dep_label (fst ab) = dep_label (snd ab))
                        (zip predicted_list gold_list)))
       / of_nat (length predicted_list) * 100"






section \<open>Auxiliary lemmas\<close>

lemma length_spans: "\<forall>n\<in>set ns. 0 < n \<Longrightarrow> length (spans k off ns) = sum_list ns"
  by (induction ns arbitrary: k off) auto

lemma generate_loop_spans:
  "\<forall>w\<in>set ws. w \<noteq> [] \<Longrightarrow> length pre = off \<Longrightarrow>
   generate_loop ws k off (pre @ replicate (sum_list (map length ws)) empty_entry)
     = Inr (pre @ spans k off (map length ws))"
proof (induction ws arbitrary: k off pre)
  case Nil
  then show ?case by simp
next
  case (Cons w ws)
  let ?e = "\<lparr>entry_end = Some (off + length w), entry_word_idx = Some k\<rparr>"
  let ?pre' = "pre @ ?e # replicate (length w - 1) empty_entry"
  from Cons.prems have w: "0 < length w" by simp
  have upd: "(pre @ replicate (sum_list (map length (w # ws))) empty_entry)[off := ?e]
      = ?pre' @ replicate (sum_list (map length ws)) empty_entry"
  proof -
    have "replicate (sum_list (map length (w # ws))) empty_entry
        = empty_entry # replicate (length w - 1) empty_entry @ replicate (sum_list (map length ws)) empty_entry"
      using w by (cases "length w") (simp_all add: replicate_add)
    then show ?thesis using Cons.prems(2) by (simp add: list_update_append)
  qed
  have len: "length ?pre' = off + length w" using Cons.prems(2) w by simp
  have "generate_loop ws (Suc k) (off + length w) (?pre' @ replicate (sum_list (map length ws)) empty_entry)
      = Inr (?pre' @ spans (Suc k) (off + length w) (map length ws))"
    using Cons.IH[OF _ len] Cons.prems(1) by simp
  moreover have "off < length (pre @ replicate (sum_list (map length (w # ws))) empty_entry)"
    using Cons.prems(2) w by simp
  ultimately show ?case
    using upd by (simp add: Let_def del: replicate_add list_update_append)
qed

lemma generate_start_end_map_spans:
  "\<forall>w\<in>set ws. w \<noteq> [] \<Longrightarrow> generate_start_end_map ws = Inr (spans 0 0 (map length ws))"
  using generate_loop_spans[of ws "[]" 0 0] by (simp add: generate_start_end_map_def)

lemma offset_0 [simp]: "offset ns 0 = 0"
  by (simp add: offset_def)

lemma offset_Cons_Suc [simp]: "offset (n # ns) (Suc j) = n + offset ns j"
  by (simp add: offset_def)

lemma offset_length [simp]: "offset ns (length ns) = sum_list ns"
  by (simp add: offset_def)

lemma length_align [simp]: "length (align gim off ns) = length ns"
  by (induction ns arbitrary: off) auto

lemma map_loop_append:
  "map_loop pim gim (xs @ ys) st = bind_result (map_loop pim gim xs st) (map_loop pim gim ys)"
  by (induction xs arbitrary: st) (auto simp: bind_result_def split: sum.splits)

lemma map_loop_skip:
  "\<forall>i\<in>set xs. entry_end (pim ! i) = None \<Longrightarrow> map_loop pim gim xs st = Inr st"
  by (induction xs arbitrary: st) (auto simp: map_step_def)

lemma map_step_token:
  assumes "pim ! off = \<lparr>entry_end = Some e, entry_word_idx = Some k\<rparr>"
    and "off < length gim" and "entries_ok gim" and "length front = Suc k"
  shows "map_step pim gim off (front @ None # rest, c)
       = Inr (front @ match_at gim off e # rest, c + defined_count [match_at gim off e])"
proof (cases "entry_end (gim ! off) = Some e")
  case True
  with assms(2,3) obtain g where g: "entry_word_idx (gim ! off) = Some g"
    by (auto simp: entries_ok_def)
  have "(front @ None # rest)[Suc k := Some (Suc g)] = front @ Some (Suc g) # rest"
    using assms(4) by (simp add: list_update_append)
  then show ?thesis
    using True g assms by (simp add: map_step_def match_at_def defined_count_def)
next
  case False
  then show ?thesis
    using assms by (simp add: map_step_def match_at_def defined_count_def)
qed

lemma map_loop_tokens:
  assumes "\<forall>n\<in>set ns. 0 < n" and "length pre = off" and "\<forall>j < length ns. off + offset ns j < length gim"
    and "entries_ok gim" and "length front = Suc k"
  shows "map_loop (pre @ spans k off ns) gim [off..<off + sum_list ns]
           (front @ replicate (length ns) None @ back, c)
       = Inr (front @ align gim off ns @ back, c + defined_count (align gim off ns))"
  using assms
proof (induction ns arbitrary: pre off front k c)
  case Nil
  then show ?case by (simp add: defined_count_def)
next
  case (Cons n ns)
  let ?e = "\<lparr>entry_end = Some (off + n), entry_word_idx = Some k\<rparr>"
  let ?pre' = "pre @ ?e # replicate (n - 1) empty_entry"
  let ?pim = "pre @ spans k off (n # ns)"
  let ?x = "match_at gim off (off + n)"
  from Cons.prems have n: "0 < n" by simp
  have pim: "?pim = ?pre' @ spans (Suc k) (off + n) ns" by simp
  have split: "[off..<off + sum_list (n # ns)]
      = off # [Suc off..<off + n] @ [off + n..<off + n + sum_list ns]"
  proof -
    have "[off..<off + sum_list (n # ns)] = [off..<off + n] @ [off + n..<off + n + sum_list ns]"
      using upt_add_eq_append[of off "off + n" "sum_list ns"] by (simp add: add.assoc)
    moreover have "[off..<off + n] = off # [Suc off..<off + n]"
      using n by (simp add: upt_conv_Cons)
    ultimately show ?thesis by simp
  qed
  have at: "?pim ! off = ?e" using Cons.prems(2) by (simp add: nth_append)
  have step: "map_step ?pim gim off (front @ None # replicate (length ns) None @ back, c)
      = Inr (front @ ?x # replicate (length ns) None @ back, c + defined_count [?x])"
    using map_step_token[OF at _ Cons.prems(4,5)] Cons.prems(3) by auto
  have skip: "map_loop ?pim gim [Suc off..<off + n] st = Inr st" for st
  proof (rule map_loop_skip, rule ballI)
    fix i assume "i \<in> set [Suc off..<off + n]"
    then have i: "Suc off \<le> i" "i < off + n" by auto
    then have "?pim ! i = (replicate (n - 1) empty_entry) ! (i - Suc off)"
      using Cons.prems(2) by (simp add: nth_append nth_Cons')
    also have "\<dots> = empty_entry" using i by simp
    finally show "entry_end (?pim ! i) = None" by (simp add: empty_entry_def)
  qed
  have len': "length ?pre' = off + n" using Cons.prems(2) n by simp
  have rest: "map_loop ?pim gim [off + n..<off + n + sum_list ns]
        ((front @ [?x]) @ replicate (length ns) None @ back, c + defined_count [?x])
      = Inr ((front @ [?x]) @ align gim (off + n) ns @ back,
             c + defined_count [?x] + defined_count (align gim (off + n) ns))"
  proof -
    have inside: "\<forall>j < length ns. off + n + offset ns j < length gim"
    proof (intro allI impI)
      fix j assume "j < length ns"
      then have "off + offset (n # ns) (Suc j) < length gim" using Cons.prems(3) by auto
      then show "off + n + offset ns j < length gim" by (simp add: add.assoc)
    qed
    show ?thesis
      using Cons.IH[OF _ len' inside Cons.prems(4), of "front @ [?x]" "Suc k"] Cons.prems(1,5)
      by simp
  qed
  have cnt: "defined_count (align gim off (n # ns))
      = defined_count [?x] + defined_count (align gim (off + n) ns)"
    by (simp add: defined_count_def)
  show ?case
    unfolding split
    using step skip rest
    by (simp add: map_loop_append bind_result_def defined_count_def del: spans.simps)
qed

lemma offset_Suc: "j < length ns \<Longrightarrow> offset ns (Suc j) = offset ns j + ns ! j"
  by (simp add: offset_def take_Suc_conv_app_nth)

lemma offset_le_total: "offset ns j \<le> sum_list ns"
proof -
  have "sum_list ns = sum_list (take j ns) + sum_list (drop j ns)"
    by (metis append_take_drop_id sum_list_append)
  then show ?thesis by (simp add: offset_def)
qed

lemma offset_strict_mono:
  "\<forall>n\<in>set ns. 0 < n \<Longrightarrow> p < q \<Longrightarrow> q \<le> length ns \<Longrightarrow> offset ns p < offset ns q"
proof (induction q)
  case 0
  then show ?case by simp
next
  case (Suc q)
  then have q: "q < length ns" by simp
  then have "0 < ns ! q" using Suc.prems(1) by simp
  then have lt: "offset ns q < offset ns (Suc q)" using q by (simp add: offset_Suc)
  show ?case
  proof (cases "p = q")
    case True
    then show ?thesis using lt by simp
  next
    case False
    then have "offset ns p < offset ns q" using Suc by simp
    then show ?thesis using lt by simp
  qed
qed

lemma offset_inj:
  assumes "\<forall>n\<in>set ns. 0 < n" "p \<le> length ns" "q \<le> length ns" "offset ns p = offset ns q"
  shows "p = q"
proof (rule ccontr)
  assume "p \<noteq> q"
  then consider "p < q" | "q < p" by linarith
  then show False
    using offset_strict_mono[OF assms(1), of p q] offset_strict_mono[OF assms(1), of q p] assms
    by cases auto
qed

lemma offset_lt_total:
  "\<forall>n\<in>set ns. 0 < n \<Longrightarrow> j < length ns \<Longrightarrow> offset ns j < sum_list ns"
  using offset_strict_mono[of ns j "length ns"] by simp

lemma spans_entry_sound:
  assumes "\<forall>n\<in>set ns. 0 < n" and "i < sum_list ns"
    and "entry_end (spans k off ns ! i) = Some e"
  shows "\<exists>j < length ns. entry_word_idx (spans k off ns ! i) = Some (k + j)
           \<and> i = offset ns j \<and> e = off + offset ns (Suc j)"
  using assms
proof (induction ns arbitrary: k off i)
  case Nil
  then show ?case by simp
next
  case (Cons n ns)
  from Cons.prems(1) have n: "0 < n" by simp
  consider "i = 0" | "0 < i" "i < n" | "n \<le> i" by linarith
  then show ?case
  proof cases
    case 1
    then show ?thesis using Cons.prems(3) by (intro exI[of _ 0]) auto
  next
    case 2
    then have "spans k off (n # ns) ! i = empty_entry"
      by (simp add: nth_Cons' nth_append)
    then show ?thesis using Cons.prems(3) by (simp add: empty_entry_def)
  next
    case 3
    then have at: "spans k off (n # ns) ! i = spans (Suc k) (off + n) ns ! (i - n)"
      using n by (simp add: nth_Cons' nth_append) 
    have "i - n < sum_list ns" using 3 Cons.prems(2) by simp
    from Cons.IH[OF _ this, of "Suc k" "off + n"] Cons.prems(1,3) at
    obtain j where j: "j < length ns"
      "entry_word_idx (spans (Suc k) (off + n) ns ! (i - n)) = Some (Suc k + j)"
      "i - n = offset ns j" "e = off + n + offset ns (Suc j)"
      by auto
    show ?thesis
      using j at 3 by (intro exI[of _ "Suc j"]) auto
  qed
qed

lemma spans_entry_complete:
  assumes "\<forall>n\<in>set ns. 0 < n" and "j < length ns"
  shows "spans k off ns ! (offset ns j)
       = \<lparr>entry_end = Some (off + offset ns (Suc j)), entry_word_idx = Some (k + j)\<rparr>"
  using assms
proof (induction ns arbitrary: k off j)
  case Nil
  then show ?case by simp
next
  case (Cons n ns)
  from Cons.prems(1) have n: "0 < n" by simp
  show ?case
  proof (cases j)
    case 0
    then show ?thesis by simp
  next
    case (Suc j')
    then have j': "j' < length ns" using Cons.prems(2) by simp
    have "spans k off (n # ns) ! (n + offset ns j') = spans (Suc k) (off + n) ns ! (offset ns j')"
      using n by (simp add: nth_Cons' nth_append)
    then show ?thesis
      using Cons.IH[OF _ j', of "Suc k" "off + n"] Cons.prems(1) Suc by (simp add: add.assoc)
  qed
qed

lemma entries_ok_spans: "\<forall>n\<in>set ns. 0 < n \<Longrightarrow> entries_ok (spans k off ns)"
  unfolding entries_ok_def
proof (intro allI impI)
  fix i
  assume pos: "\<forall>n\<in>set ns. 0 < n" and i: "i < length (spans k off ns)"
    and e: "entry_end (spans k off ns ! i) \<noteq> None"
  then obtain e' where "entry_end (spans k off ns ! i) = Some e'" by auto
  with spans_entry_sound[OF pos, of i k off e'] i pos
  show "entry_word_idx (spans k off ns ! i) \<noteq> None"
    by (auto simp: length_spans)
qed

lemma align_nth:
  "j < length ns \<Longrightarrow> align gim off ns ! j = match_at gim (off + offset ns j) (off + offset ns (Suc j))"
proof (induction ns arbitrary: off j)
  case Nil
  then show ?case by simp
next
  case (Cons n ns)
  then show ?case by (cases j) (auto simp: add.assoc)
qed

lemma length_token_lengths [simp]: "length (token_lengths ws) = length ws"
  by (simp add: token_lengths_def)

lemma token_lengths_pos: "\<forall>w\<in>set ws. word w \<noteq> [] \<Longrightarrow> \<forall>n\<in>set (token_lengths ws). 0 < n"
  by (auto simp: token_lengths_def)

lemma alignableI:
  assumes "\<forall>w\<in>set predicted_list. word w \<noteq> []" and "\<forall>w\<in>set gold_list. word w \<noteq> []"
    and "sum_list (token_lengths predicted_list) \<le> sum_list (token_lengths gold_list)"
  shows "alignable predicted_list gold_list"
proof -
  have "\<forall>n\<in>set (token_lengths predicted_list). 0 < n"
    using assms(1) by (auto simp: token_lengths_def)
  then have "offset (token_lengths predicted_list) k < sum_list (token_lengths gold_list)"
    if "k < length predicted_list" for k
    using offset_lt_total[of "token_lengths predicted_list" k] that assms(3) by simp
  then show ?thesis using assms(1,2) by (simp add: alignable_def)
qed

lemma length_alignment [simp]: "length (alignment predicted_list gold_list) = length predicted_list"
  by (simp add: alignment_def)

lemma generate_start_end_map_words:
  "\<forall>w\<in>set ws. word w \<noteq> [] \<Longrightarrow>
   generate_start_end_map (map word ws) = Inr (spans 0 0 (token_lengths ws))"
  using generate_start_end_map_spans[of "map word ws"]
  by (simp add: token_lengths_def comp_def)

lemma map_predicted_aligned:
  assumes "alignable predicted_list gold_list"
  shows "map_predicted_with_gold_words predicted_list gold_list
       = Inr (Some 0 # alignment predicted_list gold_list,
              defined_count (alignment predicted_list gold_list))"
proof -
  let ?pl = "token_lengths predicted_list" and ?gl = "token_lengths gold_list"
  from assms have pw: "\<forall>w\<in>set predicted_list. word w \<noteq> []"
    and gw: "\<forall>w\<in>set gold_list. word w \<noteq> []"
    and inside: "\<forall>k < length predicted_list. offset ?pl k < sum_list ?gl"
    by (simp_all add: alignable_def)
  have ppos: "\<forall>n\<in>set ?pl. 0 < n" and gpos: "\<forall>n\<in>set ?gl. 0 < n"
    using pw gw by (auto simp: token_lengths_def)
  have init: "(replicate (length predicted_list + 1) None)[0 := Some 0]
      = [Some (0::nat)] @ replicate (length ?pl) None @ []"
    by simp
  have loop: "map_loop ([] @ spans 0 0 ?pl) (spans 0 0 ?gl) [0..<0 + sum_list ?pl]
        ([Some 0] @ replicate (length ?pl) None @ [], 0)
      = Inr ([Some 0] @ align (spans 0 0 ?gl) 0 ?pl @ [],
             0 + defined_count (align (spans 0 0 ?gl) 0 ?pl))"
    by (rule map_loop_tokens[OF ppos]) (simp_all add: length_spans[OF gpos] inside entries_ok_spans[OF gpos])
  show ?thesis
    unfolding map_predicted_with_gold_words_def
      generate_start_end_map_words[OF pw] generate_start_end_map_words[OF gw]
      bind_result_def alignment_def init
    using loop by (simp add: length_spans[OF ppos])
qed

lemma alignment_sound:
  assumes "alignable predicted_list gold_list" and "p < length predicted_list"
    and "alignment predicted_list gold_list ! p = Some g'"
  shows "\<exists>g < length gold_list. g' = Suc g
           \<and> offset (token_lengths predicted_list) p = offset (token_lengths gold_list) g
           \<and> offset (token_lengths predicted_list) (Suc p) = offset (token_lengths gold_list) (Suc g)"
proof -
  let ?pl = "token_lengths predicted_list" and ?gl = "token_lengths gold_list"
  from assms(1) have ppos: "\<forall>n\<in>set ?pl. 0 < n" and gpos: "\<forall>n\<in>set ?gl. 0 < n"
    and inside: "\<forall>k < length predicted_list. offset ?pl k < sum_list ?gl"
    by (auto simp: alignable_def token_lengths_def)
  have m: "match_at (spans 0 0 ?gl) (offset ?pl p) (offset ?pl (Suc p)) = Some g'"
    using assms(2,3) align_nth[of p ?pl "spans 0 0 ?gl" 0] by (simp add: alignment_def)
  then have e: "entry_end (spans 0 0 ?gl ! offset ?pl p) = Some (offset ?pl (Suc p))"
    and w: "map_option Suc (entry_word_idx (spans 0 0 ?gl ! offset ?pl p)) = Some g'"
    by (auto simp: match_at_def split: if_splits)
  have "offset ?pl p < sum_list ?gl"
    using inside assms(2) by simp
  from spans_entry_sound[OF gpos this e] w show ?thesis by auto
qed

lemma alignment_complete:
  assumes "alignable predicted_list gold_list" and "p < length predicted_list"
    and "g < length gold_list"
    and "offset (token_lengths predicted_list) p = offset (token_lengths gold_list) g"
    and "offset (token_lengths predicted_list) (Suc p) = offset (token_lengths gold_list) (Suc g)"
  shows "alignment predicted_list gold_list ! p = Some (Suc g)"
proof -
  let ?pl = "token_lengths predicted_list" and ?gl = "token_lengths gold_list"
  from assms(1) have gpos: "\<forall>n\<in>set ?gl. 0 < n"
    by (auto simp: alignable_def token_lengths_def)
  have "alignment predicted_list gold_list ! p
      = match_at (spans 0 0 ?gl) (offset ?pl p) (offset ?pl (Suc p))"
    using assms(2) align_nth[of p ?pl "spans 0 0 ?gl" 0] by (simp add: alignment_def)
  also have "\<dots> = Some (Suc g)"
    using spans_entry_complete[OF gpos, of g 0 0] assms(3,4,5) by (simp add: match_at_def)
  finally show ?thesis .
qed

lemma alignment_inj:
  assumes "alignable predicted_list gold_list"
    and "p < length predicted_list" and "q < length predicted_list"
    and "alignment predicted_list gold_list ! p = Some g'"
    and "alignment predicted_list gold_list ! q = Some g'"
  shows "p = q"
proof -
  from assms(1) have ppos: "\<forall>n\<in>set (token_lengths predicted_list). 0 < n"
    by (auto simp: alignable_def token_lengths_def)
  from alignment_sound[OF assms(1,2,4)] alignment_sound[OF assms(1,3,5)]
  have "offset (token_lengths predicted_list) p = offset (token_lengths predicted_list) q"
    by auto
  then show ?thesis
    using offset_inj[OF ppos, of p q] assms(2,3) by simp
qed

lemma defined_count_le_length: "defined_count es \<le> length es"
  by (simp add: defined_count_def)

lemma defined_count_card:
  "defined_count es = card {p. p < length es \<and> es ! p \<noteq> None}"
proof -
  have "defined_count es = length (filter (\<lambda>p. es ! p \<noteq> None) [0..<length es])"
    unfolding defined_count_def
    by (subst (1) map_nth[of es, symmetric], subst filter_map) (simp add: comp_def)
  also have "\<dots> = card (set (filter (\<lambda>p. es ! p \<noteq> None) [0..<length es]))"
    by (rule distinct_card[symmetric]) simp
  also have "set (filter (\<lambda>p. es ! p \<noteq> None) [0..<length es]) = {p. p < length es \<and> es ! p \<noteq> None}"
    by auto
  finally show ?thesis .
qed

lemma alignment_count_le_gold:
  assumes "alignable predicted_list gold_list"
  shows "defined_count (alignment predicted_list gold_list) \<le> length gold_list"
proof -
  let ?es = "alignment predicted_list gold_list"
  let ?D = "{p. p < length ?es \<and> ?es ! p \<noteq> None}"
  have inj: "inj_on (\<lambda>p. the (?es ! p)) ?D"
  proof (rule inj_onI)
    fix p q assume "p \<in> ?D" "q \<in> ?D" "the (?es ! p) = the (?es ! q)"
    then obtain g' where "p < length predicted_list" "q < length predicted_list"
      "?es ! p = Some g'" "?es ! q = Some g'" by auto
    then show "p = q" using alignment_inj[OF assms] by blast
  qed
  have sub: "(\<lambda>p. the (?es ! p)) ` ?D \<subseteq> {1..length gold_list}"
  proof
    fix x assume "x \<in> (\<lambda>p. the (?es ! p)) ` ?D"
    then obtain p g' where "p < length predicted_list" "?es ! p = Some g'" "x = g'" by auto
    with alignment_sound[OF assms, of p g'] show "x \<in> {1..length gold_list}" by auto
  qed
  have "card ?D = card ((\<lambda>p. the (?es ! p)) ` ?D)"
    using inj by (simp add: card_image)
  also have "\<dots> \<le> card {1..length gold_list}"
    using sub by (intro card_mono) auto
  finally show ?thesis by (simp add: defined_count_card)
qed

lemma py_get_nat: "i < length xs \<Longrightarrow> py_get xs (int i) = Inr (xs ! i)"
  by (simp add: py_get_def)

lemma py_get_in_range: "0 \<le> i \<Longrightarrow> i < int (length xs) \<Longrightarrow> py_get xs i = Inr (xs ! nat i)"
  by (simp add: py_get_def)

lemma py_get_pred: "1 \<le> g \<Longrightarrow> g \<le> length xs \<Longrightarrow> py_get xs (int g - 1) = Inr (xs ! (g - 1))"
  using py_get_nat[of "g - 1" xs] by (simp add: of_nat_diff)

lemma pos_hit_simps [simp]:
  "pos_hit gold_list (w, None) = False"
  "pos_hit gold_list (w, Some g) = (pos w = pos (gold_list ! (g - 1)))"
  by (simp_all add: pos_hit_def)

lemma uas_hit_simps [simp]:
  "uas_hit gold_list m (w, None) = False"
  "uas_hit gold_list m (w, Some g)
     = (map_option int (m ! nat (head_idx w)) = Some (head_idx (gold_list ! (g - 1))))"
  by (simp_all add: uas_hit_def)

lemma las_hit_simps [simp]:
  "las_hit gold_list m (w, None) = False"
  "las_hit gold_list m (w, Some g)
     = (uas_hit gold_list m (w, Some g) \<and> dep_label w = dep_label (gold_list ! (g - 1)))"
  by (simp_all add: las_hit_def)

lemma pos_loop_count:
  assumes "Suc word_idx + length ws \<le> length m"
    and "entries_in_gold (drop (Suc word_idx) m) gold_list"
  shows "pos_loop ws word_idx gold_list m c
       = Inr (c + length (filter (pos_hit gold_list) (zip ws (drop (Suc word_idx) m))))"
  using assms
proof (induction ws arbitrary: word_idx c)
  case Nil
  then show ?case by simp
next
  case (Cons w ws)
  from Cons.prems(1) have lt: "Suc word_idx < length m" by simp
  have dr: "drop (Suc word_idx) m = m ! Suc word_idx # drop (Suc (Suc word_idx)) m"
    using lt by (simp add: Cons_nth_drop_Suc)
  have get: "py_get m (int word_idx + 1) = Inr (m ! Suc word_idx)"
    using py_get_nat[OF lt] by (simp add: add.commute)
  have eig: "entries_in_gold (drop (Suc (Suc word_idx)) m) gold_list"
    using Cons.prems(2) dr by (simp add: entries_in_gold_def)
  have IH: "pos_loop ws (Suc word_idx) gold_list m c'
      = Inr (c' + length (filter (pos_hit gold_list) (zip ws (drop (Suc (Suc word_idx)) m))))" for c'
    using Cons.IH[OF _ eig] Cons.prems(1) by simp
  show ?case
  proof (cases "m ! Suc word_idx")
    case None
    then show ?thesis using get IH dr by simp
  next
    case (Some g)
    then have "1 \<le> g \<and> g \<le> length gold_list"
      using Cons.prems(2) dr by (simp add: entries_in_gold_def)
    then have "py_get gold_list (int g - 1) = Inr (gold_list ! (g - 1))"
      using py_get_pred by blast
    then show ?thesis using get IH dr Some by simp
  qed
qed

lemma uas_las_loop_count:
  assumes "Suc word_idx + length ws \<le> length m"
    and "entries_in_gold (drop (Suc word_idx) m) gold_list"
    and "\<forall>w\<in>set ws. 0 \<le> head_idx w \<and> head_idx w < int (length m)"
  shows "uas_las_loop ws word_idx gold_list m (u, l)
       = Inr (u + length (filter (uas_hit gold_list m) (zip ws (drop (Suc word_idx) m))),
              l + length (filter (las_hit gold_list m) (zip ws (drop (Suc word_idx) m))))"
  using assms
proof (induction ws arbitrary: word_idx u l)
  case Nil
  then show ?case by simp
next
  case (Cons w ws)
  from Cons.prems(1) have lt: "Suc word_idx < length m" by simp
  have dr: "drop (Suc word_idx) m = m ! Suc word_idx # drop (Suc (Suc word_idx)) m"
    using lt by (simp add: Cons_nth_drop_Suc)
  have get: "py_get m (int word_idx + 1) = Inr (m ! Suc word_idx)"
    using py_get_nat[OF lt] by (simp add: add.commute)
  have hd: "py_get m (head_idx w) = Inr (m ! nat (head_idx w))"
    using Cons.prems(3) by (simp add: py_get_in_range)
  have eig: "entries_in_gold (drop (Suc (Suc word_idx)) m) gold_list"
    using Cons.prems(2) dr by (simp add: entries_in_gold_def)
  have IH: "uas_las_loop ws (Suc word_idx) gold_list m (u', l')
      = Inr (u' + length (filter (uas_hit gold_list m) (zip ws (drop (Suc (Suc word_idx)) m))),
             l' + length (filter (las_hit gold_list m) (zip ws (drop (Suc (Suc word_idx)) m))))" for u' l'
    using Cons.IH[OF _ eig] Cons.prems(1,3) by simp
  show ?case
  proof (cases "m ! Suc word_idx")
    case None
    then show ?thesis using get IH dr by simp
  next
    case (Some g)
    then have "1 \<le> g \<and> g \<le> length gold_list"
      using Cons.prems(2) dr by (simp add: entries_in_gold_def)
    then have "py_get gold_list (int g - 1) = Inr (gold_list ! (g - 1))"
      using py_get_pred by blast
    then show ?thesis using get hd IH dr Some by auto
  qed
qed

lemma filter_zip_index:
  "length xs = length ys \<Longrightarrow>
   length (filter P (zip xs ys)) = length (filter (\<lambda>i. P (xs ! i, ys ! i)) [0..<length xs])"
proof -
  assume len: "length xs = length ys"
  have "zip xs ys = map (\<lambda>i. (xs ! i, ys ! i)) [0..<length xs]"
    using len by (intro nth_equalityI) simp_all
  then have "filter P (zip xs ys) = map (\<lambda>i. (xs ! i, ys ! i)) (filter (\<lambda>i. P (xs ! i, ys ! i)) [0..<length xs])"
    by (simp add: filter_map comp_def)
  then show ?thesis by simp
qed

lemma length_filter_mono:
  "(\<And>x. x \<in> set xs \<Longrightarrow> P x \<Longrightarrow> Q x) \<Longrightarrow> length (filter P xs) \<le> length (filter Q xs)"
  by (induction xs) auto

lemma rate_pos: "0 < n \<Longrightarrow> rate x n = Inr (percent x n)"
  by (simp add: rate_def py_div_def bind_result_def percent_def)

lemma guarded_rate_eq: "guarded_rate x c = Inr (if 0 < c then percent x c else 0)"
  by (simp add: guarded_rate_def py_div_def bind_result_def percent_def)

lemma entries_in_gold_alignment:
  assumes "alignable predicted_list gold_list"
  shows "entries_in_gold (alignment predicted_list gold_list) gold_list"
  unfolding entries_in_gold_def
proof (intro ballI allI impI)
  fix e g assume "e \<in> set (alignment predicted_list gold_list)" "e = Some g"
  then obtain p where "p < length predicted_list" "alignment predicted_list gold_list ! p = Some g"
    by (auto simp: in_set_conv_nth)
  with alignment_sound[OF assms, of p g] show "1 \<le> g \<and> g \<le> length gold_list" by auto
qed

lemma get_pos_match_aligned:
  assumes "alignable predicted_list gold_list"
  shows "get_pos_match predicted_list gold_list (Some 0 # alignment predicted_list gold_list)
       = Inr (length (filter (pos_hit gold_list) (zip predicted_list (alignment predicted_list gold_list))))"
  unfolding get_pos_match_def
  using pos_loop_count[of 0 predicted_list "Some 0 # alignment predicted_list gold_list" gold_list 0]
    entries_in_gold_alignment[OF assms]
  by simp

lemma get_uas_las_match_aligned:
  assumes "well_formed predicted_list gold_list"
  shows "get_uas_las_match predicted_list gold_list (Some 0 # alignment predicted_list gold_list)
       = Inr (length (filter (uas_hit gold_list (Some 0 # alignment predicted_list gold_list))
                        (zip predicted_list (alignment predicted_list gold_list))),
              length (filter (las_hit gold_list (Some 0 # alignment predicted_list gold_list))
                        (zip predicted_list (alignment predicted_list gold_list))))"
proof -
  from assms have so: "alignable predicted_list gold_list"
    and hd: "\<forall>w\<in>set predicted_list. 0 \<le> head_idx w
                \<and> head_idx w < int (length (Some (0::nat) # alignment predicted_list gold_list))"
    by (auto simp: well_formed_def)
  show ?thesis
    unfolding get_uas_las_match_def
    using uas_las_loop_count[of 0 predicted_list "Some 0 # alignment predicted_list gold_list"
        gold_list 0 0, OF _ _ hd] entries_in_gold_alignment[OF so]
    by simp
qed

lemma get_parser_evaluation_wf:
  assumes "well_formed predicted_list gold_list"
    and "predicted_list \<noteq> []" and "gold_list \<noteq> []"
  shows "get_parser_evaluation predicted_list gold_list =
     Inr \<lparr>predicted_list_len = length predicted_list,
          gold_list_len = length gold_list,
          correct_count = seg_count predicted_list gold_list,
          precision = percent (seg_count predicted_list gold_list) (length predicted_list),
          recall = percent (seg_count predicted_list gold_list) (length gold_list),
          f1_score = get_f1_score (percent (seg_count predicted_list gold_list) (length predicted_list))
                       (percent (seg_count predicted_list gold_list) (length gold_list)),
          pos_match = pos_count predicted_list gold_list,
          pos_acc = (if 0 < seg_count predicted_list gold_list
                     then percent (pos_count predicted_list gold_list) (seg_count predicted_list gold_list)
                     else 0),
          uas_match = uas_count predicted_list gold_list,
          uas_score = (if 0 < seg_count predicted_list gold_list
                       then percent (uas_count predicted_list gold_list) (seg_count predicted_list gold_list)
                       else 0),
          uas_precision = percent (uas_count predicted_list gold_list) (length predicted_list),
          uas_recall = percent (uas_count predicted_list gold_list) (length gold_list),
          uas_f1_score = get_f1_score (percent (uas_count predicted_list gold_list) (length predicted_list))
                           (percent (uas_count predicted_list gold_list) (length gold_list)),
          las_match = las_count predicted_list gold_list,
          las_score = (if 0 < seg_count predicted_list gold_list
                       then percent (las_count predicted_list gold_list) (seg_count predicted_list gold_list)
                       else 0),
          las_precision = percent (las_count predicted_list gold_list) (length predicted_list),
          las_recall = percent (las_count predicted_list gold_list) (length gold_list),
          las_f1_score = get_f1_score (percent (las_count predicted_list gold_list) (length predicted_list))
                           (percent (las_count predicted_list gold_list) (length gold_list))\<rparr>"
proof -
  from assms(1) have so: "alignable predicted_list gold_list" by (simp add: well_formed_def)
  have np: "0 < length predicted_list" and ng: "0 < length gold_list"
    using assms(2,3) by simp_all
  show ?thesis
    unfolding get_parser_evaluation_def map_predicted_aligned[OF so] bind_result_def
    by (simp add: get_pos_match_aligned[OF so] get_uas_las_match_aligned[OF assms(1)]
        rate_pos[OF np] rate_pos[OF ng] guarded_rate_eq
        seg_count_def pos_count_def uas_count_def las_count_def)
qed

lemma defined_count_zip:
  "length xs = length es \<Longrightarrow>
   length (filter (\<lambda>we. snd we \<noteq> None) (zip xs es)) = defined_count es"
proof -
  assume len: "length xs = length es"
  have "length (filter (\<lambda>we. snd we \<noteq> None) (zip xs es))
      = length (filter (\<lambda>e. e \<noteq> None) (map snd (zip xs es)))"
    by (simp add: filter_map comp_def)
  also have "map snd (zip xs es) = es" using len by simp
  finally show ?thesis by (simp add: defined_count_def)
qed

lemma seg_count_le_predicted: "seg_count predicted_list gold_list \<le> length predicted_list"
  using defined_count_le_length[of "alignment predicted_list gold_list"] by (simp add: seg_count_def)

lemma seg_count_le_gold:
  "alignable predicted_list gold_list \<Longrightarrow> seg_count predicted_list gold_list \<le> length gold_list"
  by (simp add: seg_count_def alignment_count_le_gold)

lemma pos_count_le_seg: "pos_count predicted_list gold_list \<le> seg_count predicted_list gold_list"
proof -
  have "pos_count predicted_list gold_list
      \<le> length (filter (\<lambda>we. snd we \<noteq> None) (zip predicted_list (alignment predicted_list gold_list)))"
    unfolding pos_count_def by (rule length_filter_mono) (auto simp: pos_hit_def split: option.splits)
  also have "\<dots> = defined_count (alignment predicted_list gold_list)"
    by (rule defined_count_zip) simp
  finally show ?thesis by (simp only: seg_count_def)
qed

lemma uas_count_le_seg: "uas_count predicted_list gold_list \<le> seg_count predicted_list gold_list"
proof -
  have "uas_count predicted_list gold_list
      \<le> length (filter (\<lambda>we. snd we \<noteq> None) (zip predicted_list (alignment predicted_list gold_list)))"
    unfolding uas_count_def by (rule length_filter_mono) (auto simp: uas_hit_def split: option.splits)
  also have "\<dots> = defined_count (alignment predicted_list gold_list)"
    by (rule defined_count_zip) simp
  finally show ?thesis by (simp only: seg_count_def)
qed

lemma las_count_le_uas: "las_count predicted_list gold_list \<le> uas_count predicted_list gold_list"
  unfolding las_count_def uas_count_def
  by (rule length_filter_mono) (simp add: las_hit_def)

lemma percent_range: "x \<le> n \<Longrightarrow> 0 < n \<Longrightarrow> in_percent_range (percent x n)"
  by (simp add: in_percent_range_def percent_def divide_le_eq)

lemma zero_in_percent_range: "in_percent_range 0"
  by (simp add: in_percent_range_def)

lemma f1_range:
  assumes "in_percent_range p" and "in_percent_range r"
  shows "in_percent_range (get_f1_score p r)"
proof (cases "0 < p + r")
  case True
  from assms have p: "0 \<le> p" "p \<le> 100" and r: "0 \<le> r" "r \<le> 100"
    by (simp_all add: in_percent_range_def)
  have "p * r \<le> 100 * r" using p r by (intro mult_right_mono) simp_all
  moreover have "p * r \<le> p * 100" using p r by (intro mult_left_mono) simp_all
  ultimately have "2 * (p * r) \<le> 100 * (p + r)" by (simp add: algebra_simps)
  then have "2 * (p * r) / (p + r) \<le> 100" using True by (simp add: divide_le_eq)
  moreover have "0 \<le> 2 * (p * r) / (p + r)" using p r by simp
  ultimately show ?thesis using True by (simp add: get_f1_score_def in_percent_range_def)
next
  case False
  then show ?thesis by (simp add: get_f1_score_def in_percent_range_def)
qed

lemma alignment_identity:
  assumes "\<forall>w\<in>set predicted_list. word w \<noteq> []"
    and "token_lengths predicted_list = token_lengths gold_list"
  shows "alignment predicted_list gold_list = map (\<lambda>i. Some (Suc i)) [0..<length predicted_list]"
proof (rule nth_equalityI)
  show "length (alignment predicted_list gold_list)
      = length (map (\<lambda>i. Some (Suc i)) [0..<length predicted_list])" by simp
next
  fix i assume "i < length (alignment predicted_list gold_list)"
  then have i: "i < length predicted_list" by simp
  have len: "length gold_list = length predicted_list"
    using assms(2) by (metis length_token_lengths)
  have "\<forall>w\<in>set gold_list. word w \<noteq> []"
  proof
    fix w assume "w \<in> set gold_list"
    then have "length (word w) \<in> set (token_lengths predicted_list)"
      using assms(2) by (auto simp: token_lengths_def)
    then show "word w \<noteq> []" using assms(1) by (auto simp: token_lengths_def)
  qed
  then have so: "alignable predicted_list gold_list"
    using assms by (intro alignableI) simp_all
  show "alignment predicted_list gold_list ! i = map (\<lambda>i. Some (Suc i)) [0..<length predicted_list] ! i"
    using alignment_complete[OF so i, of i] i len assms(2) by simp
qed

lemma filter_from_one:
  "length (filter P [1..<Suc n]) = length (filter (\<lambda>i. P (Suc i)) [0..<n])"
proof -
  have "[1..<Suc n] = map Suc [0..<n]" by (simp add: map_Suc_upt)
  then show ?thesis by (simp add: filter_map comp_def)
qed

lemma uas_hit_unlabeled:
  "uas_hit gold_list (Some 0 # es) (predicted_list ! i, es ! i)
     = unlabeled_correct predicted_list gold_list (Some 0 # es) (Suc i)"
  by (cases "es ! i"; cases "(Some 0 # es) ! nat (head_idx (predicted_list ! i))")
     (simp_all add: unlabeled_correct_def)

lemma las_hit_labeled:
  "las_hit gold_list (Some 0 # es) (predicted_list ! i, es ! i)
     = labeled_correct predicted_list gold_list (Some 0 # es) (Suc i)"
  using uas_hit_unlabeled[of gold_list es predicted_list i]
  by (cases "es ! i") (simp_all add: labeled_correct_def unlabeled_correct_def)

lemma align_cong:
  "\<forall>n\<in>set ns. 0 < n \<Longrightarrow> \<forall>i < off + sum_list ns. gim ! i = gim' ! i \<Longrightarrow>
   align gim off ns = align gim' off ns"
proof (induction ns arbitrary: off)
  case Nil
  then show ?case by simp
next
  case (Cons n ns)
  then have "gim ! off = gim' ! off" by simp
  moreover have "align gim (off + n) ns = align gim' (off + n) ns"
    using Cons by (simp add: add.assoc)
  ultimately show ?case by (simp add: match_at_def)
qed

lemma map_step_count:
  "map_step pim gim i (m, c) = Inr (m', c') \<Longrightarrow> c \<le> c' \<and> (c' = c \<longrightarrow> m' = m)"
  by (auto simp: map_step_def split: option.splits if_splits)

lemma map_loop_count:
  "map_loop pim gim xs (m, c) = Inr (m', c') \<Longrightarrow> c \<le> c' \<and> (c' = c \<longrightarrow> m' = m)"
proof (induction xs arbitrary: m c)
  case Nil
  then show ?case by simp
next
  case (Cons i xs)
  from Cons.prems obtain m1 c1 where s: "map_step pim gim i (m, c) = Inr (m1, c1)"
    and l: "map_loop pim gim xs (m1, c1) = Inr (m', c')"
    by (auto split: sum.splits)
  from map_step_count[OF s] Cons.IH[OF l] show ?case by auto
qed

lemma map_predicted_zero:
  assumes "map_predicted_with_gold_words predicted_list gold_list = Inr (m, 0)"
  shows "m = Some 0 # replicate (length predicted_list) None"
proof -
  from assms obtain pim gim where
    "map_loop pim gim [0..<length pim] ((replicate (length predicted_list + 1) None)[0 := Some 0], 0)
       = Inr (m, 0)"
    by (auto simp: map_predicted_with_gold_words_def bind_result_def split: sum.splits)
  from map_loop_count[OF this] show ?thesis by simp
qed

lemma pos_loop_unaligned:
  "Suc word_idx + length ws \<le> length m \<Longrightarrow> \<forall>i. Suc word_idx \<le> i \<and> i < length m \<longrightarrow> m ! i = None \<Longrightarrow>
   pos_loop ws word_idx gold_list m c = Inr c"
proof (induction ws arbitrary: word_idx)
  case Nil
  then show ?case by simp
next
  case (Cons w ws)
  then have lt: "Suc word_idx < length m" by simp
  then have "py_get m (int word_idx + 1) = Inr None"
    using py_get_nat[OF lt] Cons.prems(2) by (simp add: add.commute)
  moreover have "pos_loop ws (Suc word_idx) gold_list m c = Inr c"
    using Cons by simp
  ultimately show ?case by simp
qed

lemma uas_las_loop_unaligned:
  "Suc word_idx + length ws \<le> length m \<Longrightarrow> \<forall>i. Suc word_idx \<le> i \<and> i < length m \<longrightarrow> m ! i = None \<Longrightarrow>
   uas_las_loop ws word_idx gold_list m cnt = Inr cnt"
proof (induction ws arbitrary: word_idx)
  case Nil
  then show ?case by simp
next
  case (Cons w ws)
  then have lt: "Suc word_idx < length m" by simp
  then have "py_get m (int word_idx + 1) = Inr None"
    using py_get_nat[OF lt] Cons.prems(2) by (simp add: add.commute)
  moreover have "uas_las_loop ws (Suc word_idx) gold_list m cnt = Inr cnt"
    using Cons by simp
  ultimately show ?case by simp
qed

lemma rate_zero: "0 < n \<Longrightarrow> rate 0 n = Inr 0"
  by (simp add: rate_def py_div_def bind_result_def)

lemma guarded_rate_zero: "guarded_rate x 0 = Inr 0"
  by (simp add: guarded_rate_def)

lemma get_parser_evaluation_c4:
  "get_parser_evaluation c4_predicted c4_gold =
     Inr \<lparr>predicted_list_len = 2, gold_list_len = 3, correct_count = 1,
          precision = 50, recall = 100 / 3, f1_score = 40,
          pos_match = 1, pos_acc = 100,
          uas_match = 1, uas_score = 100, uas_precision = 50, uas_recall = 100 / 3,
          uas_f1_score = 40,
          las_match = 1, las_score = 100, las_precision = 50, las_recall = 100 / 3,
          las_f1_score = 40\<rparr>"
  by code_simp

lemma defined_count_all: "defined_count (map (\<lambda>i. Some (f i)) xs) = length xs"
  by (simp add: defined_count_def)

lemma identity_map_nth:
  "k \<le> n \<Longrightarrow> (Some 0 # map (\<lambda>i. Some (Suc i)) [0..<n]) ! k = Some k"
  by (cases k) simp_all

lemma uas_hit_identity:
  assumes "i < n" and "0 \<le> head_idx (ps ! i)" and "head_idx (ps ! i) \<le> int n"
  shows "uas_hit gs (Some 0 # map (\<lambda>i. Some (Suc i)) [0..<n])
           (ps ! i, map (\<lambda>i. Some (Suc i)) [0..<n] ! i)
       = (head_idx (ps ! i) = head_idx (gs ! i))"
proof -
  have "nat (head_idx (ps ! i)) \<le> n" using assms(2,3) by simp
  from identity_map_nth[OF this] assms(1,2) show ?thesis by auto
qed

lemma identity_counts:
  assumes "well_formed predicted_list gold_list"
    and "token_lengths predicted_list = token_lengths gold_list"
  shows "seg_count predicted_list gold_list = length predicted_list"
    and "uas_count predicted_list gold_list
       = length (filter (\<lambda>ab. head_idx (fst ab) = head_idx (snd ab)) (zip predicted_list gold_list))"
    and "las_count predicted_list gold_list
       = length (filter (\<lambda>ab. head_idx (fst ab) = head_idx (snd ab)
                                  \<and> dep_label (fst ab) = dep_label (snd ab))
                        (zip predicted_list gold_list))"
proof -
  let ?n = "length predicted_list"
  let ?es = "map (\<lambda>i. Some (Suc i)) [0..<?n]"
  from assms(1) have pw: "\<forall>w\<in>set predicted_list. word w \<noteq> []"
    and hd: "\<forall>w\<in>set predicted_list. 0 \<le> head_idx w \<and> head_idx w \<le> int ?n"
    by (simp_all add: well_formed_def alignable_def)
  have es: "alignment predicted_list gold_list = ?es"
    by (rule alignment_identity[OF pw assms(2)])
  have len: "length gold_list = ?n"
    using assms(2) by (metis length_token_lengths)
  show "seg_count predicted_list gold_list = ?n"
    by (simp add: seg_count_def es defined_count_all)
  have hit: "uas_hit gold_list (Some 0 # ?es) (predicted_list ! i, ?es ! i)
      = (head_idx (predicted_list ! i) = head_idx (gold_list ! i))" if "i < ?n" for i
    using uas_hit_identity[OF that, of predicted_list gold_list] hd that by simp
  have lhit: "las_hit gold_list (Some 0 # ?es) (predicted_list ! i, ?es ! i)
      = (head_idx (predicted_list ! i) = head_idx (gold_list ! i)
          \<and> dep_label (predicted_list ! i) = dep_label (gold_list ! i))" if "i < ?n" for i
    using hit[OF that] that by simp
  have "uas_count predicted_list gold_list
      = length (filter (\<lambda>i. uas_hit gold_list (Some 0 # ?es) (predicted_list ! i, ?es ! i)) [0..<?n])"
    unfolding uas_count_def es by (subst filter_zip_index) simp_all
  also have "\<dots> = length (filter (\<lambda>i. head_idx (predicted_list ! i) = head_idx (gold_list ! i)) [0..<?n])"
    by (rule arg_cong[where f = length], rule filter_cong[OF refl], rule hit) simp
  also have "\<dots> = length (filter (\<lambda>ab. head_idx (fst ab) = head_idx (snd ab)) (zip predicted_list gold_list))"
    by (subst filter_zip_index) (simp_all add: len)
  finally show "uas_count predicted_list gold_list
       = length (filter (\<lambda>ab. head_idx (fst ab) = head_idx (snd ab)) (zip predicted_list gold_list))" .
  have "las_count predicted_list gold_list
      = length (filter (\<lambda>i. las_hit gold_list (Some 0 # ?es) (predicted_list ! i, ?es ! i)) [0..<?n])"
    unfolding las_count_def es by (subst filter_zip_index) simp_all
  also have "\<dots> = length (filter (\<lambda>i. head_idx (predicted_list ! i) = head_idx (gold_list ! i)
          \<and> dep_label (predicted_list ! i) = dep_label (gold_list ! i)) [0..<?n])"
    by (rule arg_cong[where f = length], rule filter_cong[OF refl], rule lhit) simp
  also have "\<dots> = length (filter (\<lambda>ab. head_idx (fst ab) = head_idx (snd ab)
                                  \<and> dep_label (fst ab) = dep_label (snd ab))
                        (zip predicted_list gold_list))"
    by (subst filter_zip_index) (simp_all add: len)
  finally show "las_count predicted_list gold_list
       = length (filter (\<lambda>ab. head_idx (fst ab) = head_idx (snd ab)
                                  \<and> dep_label (fst ab) = dep_label (snd ab))
                        (zip predicted_list gold_list))" .
qed

lemma percent_full: "0 < n \<Longrightarrow> percent n n = 100"
  by (simp add: percent_def)



lemma map_step_outside:
  assumes "pim ! off = \<lparr>entry_end = Some e, entry_word_idx = Some k\<rparr>"
    and "length gim \<le> off"
  shows "map_step pim gim off st = Inl IndexError"
  using assms by (simp add: map_step_def)

lemma map_loop_tokens_outside:
  assumes "\<forall>n\<in>set ns. 0 < n" and "length pre = off"
    and "\<exists>j < length ns. length gim \<le> off + offset ns j"
    and "entries_ok gim" and "length front = Suc k"
  shows "map_loop (pre @ spans k off ns) gim [off..<off + sum_list ns]
           (front @ replicate (length ns) None @ back, c)
       = Inl IndexError"
  using assms
proof (induction ns arbitrary: pre off front k c)
  case Nil
  then show ?case by simp
next
  case (Cons n ns)
  let ?e = "\<lparr>entry_end = Some (off + n), entry_word_idx = Some k\<rparr>"
  let ?pre' = "pre @ ?e # replicate (n - 1) empty_entry"
  let ?pim = "pre @ spans k off (n # ns)"
  let ?x = "match_at gim off (off + n)"
  from Cons.prems have n: "0 < n" by simp
  have split: "[off..<off + sum_list (n # ns)]
      = off # [Suc off..<off + n] @ [off + n..<off + n + sum_list ns]"
  proof -
    have "[off..<off + sum_list (n # ns)] = [off..<off + n] @ [off + n..<off + n + sum_list ns]"
      using upt_add_eq_append[of off "off + n" "sum_list ns"] by (simp add: add.assoc)
    moreover have "[off..<off + n] = off # [Suc off..<off + n]"
      using n by (simp add: upt_conv_Cons)
    ultimately show ?thesis by simp
  qed
  have at: "?pim ! off = ?e" using Cons.prems(2) by (simp add: nth_append)
  show ?case
  proof (cases "length gim \<le> off")
    case True
    have "map_step ?pim gim off (front @ replicate (length (n # ns)) None @ back, c) = Inl IndexError"
      by (rule map_step_outside[OF at True])
    then show ?thesis unfolding split by (simp del: spans.simps)
  next
    case False
    then have inside: "off < length gim" by simp
    have step: "map_step ?pim gim off (front @ None # replicate (length ns) None @ back, c)
        = Inr (front @ ?x # replicate (length ns) None @ back, c + defined_count [?x])"
      using map_step_token[OF at inside Cons.prems(4,5)] by simp
    have skip: "map_loop ?pim gim [Suc off..<off + n] st = Inr st" for st
    proof (rule map_loop_skip, rule ballI)
      fix i assume "i \<in> set [Suc off..<off + n]"
      then have i: "Suc off \<le> i" "i < off + n" by auto
      then have "?pim ! i = (replicate (n - 1) empty_entry) ! (i - Suc off)"
        using Cons.prems(2) by (simp add: nth_append nth_Cons')
      also have "\<dots> = empty_entry" using i by simp
      finally show "entry_end (?pim ! i) = None" by (simp add: empty_entry_def)
    qed
    have len': "length ?pre' = off + n" using Cons.prems(2) n by simp
    from Cons.prems(3) obtain j where j: "j < length (n # ns)" "length gim \<le> off + offset (n # ns) j"
      by blast
    with inside obtain j' where j': "j = Suc j'" by (cases j) auto
    have out: "\<exists>j < length ns. length gim \<le> off + n + offset ns j"
      using j j' by (intro exI[of _ j']) (simp add: add.assoc)
    have rest: "map_loop ?pim gim [off + n..<off + n + sum_list ns]
          ((front @ [?x]) @ replicate (length ns) None @ back, c + defined_count [?x])
        = Inl IndexError"
      using Cons.IH[OF _ len' out Cons.prems(4), of "front @ [?x]" "Suc k"] Cons.prems(1,5)
      by simp
    show ?thesis
      unfolding split
      using step skip rest
      by (simp add: map_loop_append bind_result_def del: spans.simps)
  qed
qed

lemma map_predicted_outside:
  assumes "\<forall>w\<in>set predicted_list. word w \<noteq> []" and "\<forall>w\<in>set gold_list. word w \<noteq> []"
    and "k < length predicted_list"
    and "sum_list (token_lengths gold_list) \<le> offset (token_lengths predicted_list) k"
  shows "map_predicted_with_gold_words predicted_list gold_list = Inl IndexError"
proof -
  let ?pl = "token_lengths predicted_list" and ?gl = "token_lengths gold_list"
  have ppos: "\<forall>n\<in>set ?pl. 0 < n" and gpos: "\<forall>n\<in>set ?gl. 0 < n"
    using assms(1,2) by (auto simp: token_lengths_def)
  have init: "(replicate (length predicted_list + 1) None)[0 := Some 0]
      = [Some (0::nat)] @ replicate (length ?pl) None @ []"
    by simp
  have out: "\<exists>j < length ?pl. length (spans 0 0 ?gl) \<le> 0 + offset ?pl j"
    using assms(3,4) by (intro exI[of _ k]) (simp add: length_spans[OF gpos])
  have loop: "map_loop ([] @ spans 0 0 ?pl) (spans 0 0 ?gl) [0..<0 + sum_list ?pl]
        ([Some 0] @ replicate (length ?pl) None @ [], 0)
      = Inl IndexError"
    by (rule map_loop_tokens_outside[OF ppos _ out entries_ok_spans[OF gpos]]) simp_all
  show ?thesis
    unfolding map_predicted_with_gold_words_def
      generate_start_end_map_words[OF assms(1)] generate_start_end_map_words[OF assms(2)]
      bind_result_def init
    using loop by (simp add: length_spans[OF ppos])
qed



section \<open>The properties\<close>

subsection \<open>Sentence level: empty predicted list\<close>

text \<open>
  C1. For an empty predicted list and a non-empty gold list the specification asks for a
  record with precision 0 and recall 0 and no exception. The source guards the divisions by
  \<open>correct_count\<close> (\<open>pos_acc\<close>, \<open>uas_score\<close>, \<open>las_score\<close>) and the one in
  \<open>get_f1_score\<close>, but divides by \<open>len(predicted_list)\<close> without a guard: on the empty
  predicted list and a gold sentence of one token \<open>get_parser_evaluation\<close> raises
  \<open>ZeroDivisionError\<close> and returns no record.
\<close>

theorem empty_predicted_raises:
  "c1_gold \<noteq> [] \<and> get_parser_evaluation [] c1_gold = Inl ZeroDivisionError"
  by code_simp

subsection \<open>Head comparison through the alignment map\<close>

text \<open>
  C2. For well-formed sequences with alignment map \<open>m\<close>, \<open>get_uas_las_match\<close> returns
  the number of predicted indices \<open>p\<close> that are unlabeled-correct and the number that are
  labeled-correct, where \<open>p\<close> is unlabeled-correct iff \<open>m\<close> is defined at \<open>p\<close>, say with
  value \<open>g\<close>, and \<open>m\<close> at the predicted head of \<open>p\<close> is defined and equals the head index
  of gold token \<open>g\<close>, and labeled-correct iff in addition the dependency labels agree.
  Moreover \<open>m ! 0 = Some 0\<close>, so an aligned token with predicted head 0 is
  unlabeled-correct exactly when the head index of its gold token is 0.
\<close>

theorem uas_las_through_alignment:
  assumes "well_formed predicted_list gold_list"
    and "map_predicted_with_gold_words predicted_list gold_list = Inr (m, c)"
  shows "get_uas_las_match predicted_list gold_list m
           = Inr (length (filter (unlabeled_correct predicted_list gold_list m)
                            [1..<Suc (length predicted_list)]),
                  length (filter (labeled_correct predicted_list gold_list m)
                            [1..<Suc (length predicted_list)]))
       \<and> m ! 0 = Some 0
       \<and> (\<forall>p g. 1 \<le> p \<and> p \<le> length predicted_list \<and> m ! p = Some g
                  \<and> head_idx (predicted_list ! (p - 1)) = 0
             \<longrightarrow> (unlabeled_correct predicted_list gold_list m p
                    \<longleftrightarrow> head_idx (gold_list ! (g - 1)) = 0))"
proof -
  let ?es = "alignment predicted_list gold_list"
  from assms(1) have so: "alignable predicted_list gold_list" by (simp add: well_formed_def)
  have m: "m = Some 0 # ?es"
    using assms(2) map_predicted_aligned[OF so] by simp
  have u: "length (filter (uas_hit gold_list m) (zip predicted_list ?es))
      = length (filter (unlabeled_correct predicted_list gold_list m) [1..<Suc (length predicted_list)])"
    unfolding filter_from_one m
    by (subst filter_zip_index) (simp_all add: uas_hit_unlabeled)
  have l: "length (filter (las_hit gold_list m) (zip predicted_list ?es))
      = length (filter (labeled_correct predicted_list gold_list m) [1..<Suc (length predicted_list)])"
    unfolding filter_from_one m
    by (subst filter_zip_index) (simp_all add: las_hit_labeled)
  have counts: "get_uas_las_match predicted_list gold_list m
      = Inr (length (filter (unlabeled_correct predicted_list gold_list m)
                            [1..<Suc (length predicted_list)]),
             length (filter (labeled_correct predicted_list gold_list m)
                            [1..<Suc (length predicted_list)]))"
    using get_uas_las_match_aligned[OF assms(1)] u l by (simp add: m)
  have root: "m ! 0 = Some 0" by (simp add: m)
  have "unlabeled_correct predicted_list gold_list m p \<longleftrightarrow> head_idx (gold_list ! (g - 1)) = 0"
    if "m ! p = Some g" "head_idx (predicted_list ! (p - 1)) = 0" for p g
    using that root by (simp add: unlabeled_correct_def)
  with counts root show ?thesis by blast
qed

theorem uas_las_through_alignment_witness:
  "well_formed c2_predicted c2_gold
   \<and> map_predicted_with_gold_words c2_predicted c2_gold = Inr ([Some 0, Some 1, Some 2, Some 3], 3)
   \<and> get_uas_las_match c2_predicted c2_gold [Some 0, Some 1, Some 2, Some 3] = Inr (3, 2)
   \<and> [Some 0, Some 1, Some 2, Some (3::nat)] ! 0 = Some 0
   \<and> (unlabeled_correct c2_predicted c2_gold [Some 0, Some 1, Some 2, Some 3] 2
        \<longleftrightarrow> head_idx (c2_gold ! (2 - 1)) = 0)"
proof -
  let ?m = "[Some 0, Some 1, Some 2, Some (3::nat)]"
  have wf: "well_formed c2_predicted c2_gold" by code_simp
  have mp: "map_predicted_with_gold_words c2_predicted c2_gold = Inr (?m, 3)" by code_simp
  note T = uas_las_through_alignment[OF wf mp]
  have u: "length (filter (unlabeled_correct c2_predicted c2_gold ?m)
      [1..<Suc (length c2_predicted)]) = 3" by code_simp
  have l: "length (filter (labeled_correct c2_predicted c2_gold ?m)
      [1..<Suc (length c2_predicted)]) = 2" by code_simp
  have counts: "get_uas_las_match c2_predicted c2_gold ?m = Inr (3, 2)"
    using T[THEN conjunct1] unfolding u l .
  have pre: "1 \<le> (2::nat) \<and> 2 \<le> length c2_predicted \<and> ?m ! 2 = Some 2
      \<and> head_idx (c2_predicted ! (2 - 1)) = 0" by code_simp
  have root: "unlabeled_correct c2_predicted c2_gold ?m 2 \<longleftrightarrow> head_idx (c2_gold ! (2 - 1)) = 0"
    using T[THEN conjunct2, THEN conjunct2, rule_format, OF pre] .
  show ?thesis
    using wf mp counts T[THEN conjunct2, THEN conjunct1] root by blast
qed

subsection \<open>Streams of different lengths\<close>

text \<open>
  C3, amended. For token sequences with non-empty token texts in which every predicted token
  starts inside the gold character stream (as is the case whenever the predicted stream is
  not longer than the gold stream, in particular when it is shorter),
  \<open>map_predicted_with_gold_words\<close> returns a map and a count; the result depends on the
  gold start-end map only at the offsets within the predicted stream (any gold sequence whose
  start-end map agrees there gives the same result); and no gold token that starts at or
  beyond the length of the predicted stream is the value of an entry of the map. The claim as
  stated, for all streams of different lengths, fails when the predicted stream is the longer
  one and a predicted token starts at or beyond the end of the gold stream: the source then
  indexes the gold start-end map out of range and the call raises \<open>IndexError\<close> (lemma
  \<open>map_predicted_outside\<close>, and the closed instance after the next theorem).
\<close>

theorem alignment_within_predicted_range:
  assumes "alignable predicted_list gold_list"
  shows "\<exists>m c. map_predicted_with_gold_words predicted_list gold_list = Inr (m, c)
     \<and> (\<forall>gold_list' gim gim'.
           alignable predicted_list gold_list'
           \<and> generate_start_end_map (map word gold_list) = Inr gim
           \<and> generate_start_end_map (map word gold_list') = Inr gim'
           \<and> take (sum_list (token_lengths predicted_list)) gim
               = take (sum_list (token_lengths predicted_list)) gim'
           \<longrightarrow> map_predicted_with_gold_words predicted_list gold_list' = Inr (m, c))
     \<and> (\<forall>k. k < length gold_list
              \<and> sum_list (token_lengths predicted_list) \<le> offset (token_lengths gold_list) k
           \<longrightarrow> Some (Suc k) \<notin> set m)"
proof -
  let ?pl = "token_lengths predicted_list" and ?gl = "token_lengths gold_list"
  let ?es = "alignment predicted_list gold_list"
  let ?m = "Some 0 # ?es"
  from assms have ppos: "\<forall>n\<in>set ?pl. 0 < n" and gw: "\<forall>w\<in>set gold_list. word w \<noteq> []"
    by (auto simp: alignable_def token_lengths_def)
  have ret: "map_predicted_with_gold_words predicted_list gold_list = Inr (?m, defined_count ?es)"
    by (rule map_predicted_aligned[OF assms])
  have dep: "map_predicted_with_gold_words predicted_list gold_list' = Inr (?m, defined_count ?es)"
    if so': "alignable predicted_list gold_list'"
      and g: "generate_start_end_map (map word gold_list) = Inr gim"
      and g': "generate_start_end_map (map word gold_list') = Inr gim'"
      and tk: "take (sum_list ?pl) gim = take (sum_list ?pl) gim'"
    for gold_list' gim gim'
  proof -
    from so' have gw': "\<forall>w\<in>set gold_list'. word w \<noteq> []" by (simp add: alignable_def)
    have gim: "gim = spans 0 0 ?gl" and gim': "gim' = spans 0 0 (token_lengths gold_list')"
      using g g' generate_start_end_map_words[OF gw] generate_start_end_map_words[OF gw'] by simp_all
    have "\<forall>i < 0 + sum_list ?pl. gim ! i = gim' ! i"
    proof (intro allI impI)
      fix i assume "i < 0 + sum_list ?pl"
      then have "gim ! i = take (sum_list ?pl) gim ! i" "gim' ! i = take (sum_list ?pl) gim' ! i"
        by simp_all
      then show "gim ! i = gim' ! i" using tk by simp
    qed
    from align_cong[OF ppos this]
    have "alignment predicted_list gold_list' = ?es"
      by (simp add: alignment_def gim gim')
    then show ?thesis using map_predicted_aligned[OF so'] by simp
  qed
  have beyond: "Some (Suc k) \<notin> set ?m"
    if k: "k < length gold_list" and far: "sum_list ?pl \<le> offset ?gl k" for k
  proof
    assume "Some (Suc k) \<in> set ?m"
    then have "Some (Suc k) \<in> set ?es" by simp
    then obtain q where q: "q < length predicted_list" "?es ! q = Some (Suc k)"
      by (auto simp: in_set_conv_nth)
    from alignment_sound[OF assms q] have "offset ?pl q = offset ?gl k" by simp
    moreover have "offset ?pl q < sum_list ?pl" using offset_lt_total[OF ppos] q(1) by simp
    ultimately show False using far by simp
  qed
  from ret dep beyond show ?thesis by blast
qed

theorem alignment_within_predicted_range_witness:
  "alignable c3_short_predicted c3_long_gold
   \<and> sum_list (token_lengths c3_short_predicted) < sum_list (token_lengths c3_long_gold)
   \<and> map_predicted_with_gold_words c3_short_predicted c3_long_gold = Inr ([Some 0, Some 1], 1)
   \<and> sum_list (token_lengths c3_short_predicted) \<le> offset (token_lengths c3_long_gold) 1
   \<and> Some (Suc 1) \<notin> set [Some 0, Some (1::nat)]"
proof -
  have so: "alignable c3_short_predicted c3_long_gold" by code_simp
  have lt: "sum_list (token_lengths c3_short_predicted) < sum_list (token_lengths c3_long_gold)"
    by code_simp
  have mp: "map_predicted_with_gold_words c3_short_predicted c3_long_gold
      = Inr ([Some 0, Some 1], 1)" by code_simp
  have far: "(1::nat) < length c3_long_gold
      \<and> sum_list (token_lengths c3_short_predicted) \<le> offset (token_lengths c3_long_gold) 1"
    by code_simp
  from alignment_within_predicted_range[OF so] mp far
  have "Some (Suc 1) \<notin> set [Some 0, Some (1::nat)]" by auto
  with so lt mp far show ?thesis by blast
qed

theorem unequal_streams_counterexample:
  "sum_list (token_lengths c3_predicted) \<noteq> sum_list (token_lengths c3_gold)
   \<and> map_predicted_with_gold_words c3_predicted c3_gold = Inl IndexError"
  by code_simp

subsection \<open>Denominators of scores, precisions and recalls\<close>

text \<open>
  C4. For well-formed input with non-empty lists and correct segmentation count \<open>c > 0\<close>,
  \<open>get_parser_evaluation\<close> returns a record in which \<open>uas_score\<close> and \<open>las_score\<close>
  are the match counts divided by \<open>c\<close>, times 100, while the precisions and recalls are
  the match counts divided by the length of the predicted and of the gold list, times 100.
  The two conventions differ: for the example of two predicted against three gold tokens
  the scores are 100, the precisions 50 and the recalls 100/3.
\<close>

theorem score_and_precision_denominators:
  assumes "well_formed predicted_list gold_list"
    and "predicted_list \<noteq> []" and "gold_list \<noteq> []"
    and "map_predicted_with_gold_words predicted_list gold_list = Inr (m, c)" and "0 < c"
  shows "(\<exists>ev. get_parser_evaluation predicted_list gold_list = Inr ev
            \<and> correct_count ev = c
            \<and> uas_score ev = of_nat (uas_match ev) / of_nat c * 100
            \<and> las_score ev = of_nat (las_match ev) / of_nat c * 100
            \<and> uas_precision ev = of_nat (uas_match ev) / of_nat (length predicted_list) * 100
            \<and> uas_recall ev = of_nat (uas_match ev) / of_nat (length gold_list) * 100
            \<and> las_precision ev = of_nat (las_match ev) / of_nat (length predicted_list) * 100
            \<and> las_recall ev = of_nat (las_match ev) / of_nat (length gold_list) * 100)
       \<and> (\<exists>ev. get_parser_evaluation c4_predicted c4_gold = Inr ev
            \<and> uas_score ev \<noteq> uas_precision ev \<and> uas_score ev \<noteq> uas_recall ev
            \<and> las_score ev \<noteq> las_precision ev \<and> las_score ev \<noteq> las_recall ev)"
proof -
  from assms(1) have so: "alignable predicted_list gold_list" by (simp add: well_formed_def)
  have c: "seg_count predicted_list gold_list = c"
    using assms(4) map_predicted_aligned[OF so] by (simp add: seg_count_def)
  have general: "\<exists>ev. get_parser_evaluation predicted_list gold_list = Inr ev
            \<and> correct_count ev = c
            \<and> uas_score ev = of_nat (uas_match ev) / of_nat c * 100
            \<and> las_score ev = of_nat (las_match ev) / of_nat c * 100
            \<and> uas_precision ev = of_nat (uas_match ev) / of_nat (length predicted_list) * 100
            \<and> uas_recall ev = of_nat (uas_match ev) / of_nat (length gold_list) * 100
            \<and> las_precision ev = of_nat (las_match ev) / of_nat (length predicted_list) * 100
            \<and> las_recall ev = of_nat (las_match ev) / of_nat (length gold_list) * 100"
    unfolding get_parser_evaluation_wf[OF assms(1,2,3)] c
    using assms(5) by (simp add: percent_def)
  have example: "\<exists>ev. get_parser_evaluation c4_predicted c4_gold = Inr ev
            \<and> uas_score ev \<noteq> uas_precision ev \<and> uas_score ev \<noteq> uas_recall ev
            \<and> las_score ev \<noteq> las_precision ev \<and> las_score ev \<noteq> las_recall ev"
    unfolding get_parser_evaluation_c4 by simp
  from general example show ?thesis by (rule conjI)
qed

theorem score_and_precision_denominators_witness:
  "well_formed c4_predicted c4_gold \<and> c4_predicted \<noteq> [] \<and> c4_gold \<noteq> []
   \<and> map_predicted_with_gold_words c4_predicted c4_gold = Inr ([Some 0, Some 1, None], 1)
   \<and> (\<exists>ev. get_parser_evaluation c4_predicted c4_gold = Inr ev
          \<and> correct_count ev = 1
          \<and> uas_score ev = of_nat (uas_match ev) / of_nat 1 * 100
          \<and> las_score ev = of_nat (las_match ev) / of_nat 1 * 100
          \<and> uas_precision ev = of_nat (uas_match ev) / of_nat (length c4_predicted) * 100
          \<and> uas_recall ev = of_nat (uas_match ev) / of_nat (length c4_gold) * 100
          \<and> las_precision ev = of_nat (las_match ev) / of_nat (length c4_predicted) * 100
          \<and> las_recall ev = of_nat (las_match ev) / of_nat (length c4_gold) * 100)"
proof -
  have wf: "well_formed c4_predicted c4_gold" by code_simp
  have ne: "c4_predicted \<noteq> []" "c4_gold \<noteq> []" by (simp_all add: c4_predicted_def c4_gold_def)
  have mp: "map_predicted_with_gold_words c4_predicted c4_gold = Inr ([Some 0, Some 1, None], 1)"
    by code_simp
  have pos: "0 < (1::nat)" by simp
  from score_and_precision_denominators[OF wf ne mp pos, THEN conjunct1] wf ne mp
  show ?thesis by blast
qed

subsection \<open>Zero correct segmentations\<close>

text \<open>
  C5. For non-empty predicted and gold lists whose correct segmentation count is zero,
  \<open>get_parser_evaluation\<close> returns a record with \<open>pos_acc\<close>, \<open>uas_score\<close> and
  \<open>las_score\<close> equal to 0 (and \<open>f1_score\<close> equal to 0), raising no exception; and
  \<open>get_f1_score\<close> is 0 whenever precision plus recall is 0.
\<close>

theorem zero_segmentation_rates:
  assumes "map_predicted_with_gold_words predicted_list gold_list = Inr (m, 0)"
    and "predicted_list \<noteq> []" and "gold_list \<noteq> []"
  shows "(\<exists>ev. get_parser_evaluation predicted_list gold_list = Inr ev
            \<and> correct_count ev = 0 \<and> pos_acc ev = 0 \<and> uas_score ev = 0 \<and> las_score ev = 0
            \<and> f1_score ev = 0)
       \<and> (\<forall>p r. p + r = 0 \<longrightarrow> get_f1_score p r = 0)"
proof -
  have m: "m = Some 0 # replicate (length predicted_list) None"
    by (rule map_predicted_zero[OF assms(1)])
  have none: "\<forall>i. Suc 0 \<le> i \<and> i < length m \<longrightarrow> m ! i = None"
    by (auto simp: m nth_Cons')
  have len: "Suc 0 + length predicted_list \<le> length m" by (simp add: m)
  have pm: "get_pos_match predicted_list gold_list m = Inr 0"
    unfolding get_pos_match_def by (rule pos_loop_unaligned[OF len none])
  have ul: "get_uas_las_match predicted_list gold_list m = Inr (0, 0)"
    unfolding get_uas_las_match_def by (rule uas_las_loop_unaligned[OF len none])
  have np: "0 < length predicted_list" and ng: "0 < length gold_list"
    using assms(2,3) by simp_all
  have "get_parser_evaluation predicted_list gold_list =
     Inr \<lparr>predicted_list_len = length predicted_list, gold_list_len = length gold_list,
          correct_count = 0, precision = 0, recall = 0, f1_score = get_f1_score 0 0,
          pos_match = 0, pos_acc = 0,
          uas_match = 0, uas_score = 0, uas_precision = 0, uas_recall = 0,
          uas_f1_score = get_f1_score 0 0,
          las_match = 0, las_score = 0, las_precision = 0, las_recall = 0,
          las_f1_score = get_f1_score 0 0\<rparr>"
    unfolding get_parser_evaluation_def assms(1) bind_result_def
    by (simp add: pm ul rate_zero[OF np] rate_zero[OF ng] guarded_rate_zero)
  moreover have "\<forall>p r. p + r = 0 \<longrightarrow> get_f1_score p r = 0"
    by (simp add: get_f1_score_def)
  ultimately show ?thesis by (simp add: get_f1_score_def)
qed

theorem zero_segmentation_rates_witness:
  "map_predicted_with_gold_words c5_predicted c5_gold = Inr ([Some 0, None, None], 0)
   \<and> c5_predicted \<noteq> [] \<and> c5_gold \<noteq> []
   \<and> (\<exists>ev. get_parser_evaluation c5_predicted c5_gold = Inr ev
          \<and> correct_count ev = 0 \<and> pos_acc ev = 0 \<and> uas_score ev = 0 \<and> las_score ev = 0
          \<and> f1_score ev = 0)
   \<and> get_f1_score 0 0 = 0"
proof -
  have mp: "map_predicted_with_gold_words c5_predicted c5_gold = Inr ([Some 0, None, None], 0)"
    by code_simp
  have ne: "c5_predicted \<noteq> []" "c5_gold \<noteq> []" by (simp_all add: c5_predicted_def c5_gold_def)
  from zero_segmentation_rates[OF mp ne] mp ne show ?thesis by simp
qed

subsection \<open>ROOT and injectivity of the alignment map\<close>

text \<open>
  C6. For alignable sequences (the span part of well-formedness; head indices play no role)
  \<open>map_predicted_with_gold_words\<close> returns a map with one entry for ROOT and one per
  predicted token, whose entry 0 is 0 and whose defined entries are injective: two indices
  with the same defined value are equal.
\<close>

theorem alignment_root_and_injective:
  assumes "alignable predicted_list gold_list"
  shows "\<exists>m c. map_predicted_with_gold_words predicted_list gold_list = Inr (m, c)
           \<and> length m = length predicted_list + 1
           \<and> m ! 0 = Some 0
           \<and> (\<forall>i j. i < length m \<and> j < length m \<and> m ! i \<noteq> None \<and> m ! i = m ! j \<longrightarrow> i = j)"
proof -
  let ?es = "alignment predicted_list gold_list"
  let ?m = "Some 0 # ?es"
  have inj: "i = j" if "i < length ?m" "j < length ?m" "?m ! i \<noteq> None" "?m ! i = ?m ! j" for i j
  proof (cases i)
    case 0
    show ?thesis
    proof (cases j)
      case 0
      with \<open>i = 0\<close> show ?thesis by simp
    next
      case (Suc j')
      with that \<open>i = 0\<close> have "j' < length predicted_list" "?es ! j' = Some 0" by simp_all
      with alignment_sound[OF assms, of j' 0] show ?thesis by simp
    qed
  next
    case (Suc i')
    with that obtain g where i': "i' < length predicted_list" "?es ! i' = Some g" by auto
    show ?thesis
    proof (cases j)
      case 0
      with that Suc i' have "?es ! i' = Some 0" by simp
      with alignment_sound[OF assms, of i' 0] i' show ?thesis by simp
    next
      case (Suc j')
      with that \<open>i = Suc i'\<close> i' have "j' < length predicted_list" "?es ! j' = Some g" by simp_all
      with alignment_inj[OF assms i'(1) _ i'(2)] Suc \<open>i = Suc i'\<close> show ?thesis by simp
    qed
  qed
  have ret: "map_predicted_with_gold_words predicted_list gold_list = Inr (?m, defined_count ?es)"
    by (rule map_predicted_aligned[OF assms])
  have len: "length ?m = length predicted_list + 1" by simp
  have root: "?m ! 0 = Some 0" by simp
  have "\<forall>i j. i < length ?m \<and> j < length ?m \<and> ?m ! i \<noteq> None \<and> ?m ! i = ?m ! j \<longrightarrow> i = j"
    using inj by blast
  with ret len root show ?thesis by blast
qed

theorem alignment_root_and_injective_witness:
  "alignable c4_predicted c4_gold
   \<and> map_predicted_with_gold_words c4_predicted c4_gold = Inr ([Some 0, Some 1, None], 1)
   \<and> length [Some 0, Some 1, None :: nat option] = length c4_predicted + 1
   \<and> [Some 0, Some 1, None :: nat option] ! 0 = Some 0
   \<and> [Some 0, Some 1, None :: nat option] ! 0 \<noteq> [Some 0, Some 1, None] ! 1"
proof -
  let ?m = "[Some 0, Some 1, None :: nat option]"
  have so: "alignable c4_predicted c4_gold" by code_simp
  have mp: "map_predicted_with_gold_words c4_predicted c4_gold = Inr (?m, 1)" by code_simp
  from alignment_root_and_injective[OF so] obtain m c where
    ret: "map_predicted_with_gold_words c4_predicted c4_gold = Inr (m, c)"
    and len': "length m = length c4_predicted + 1" and root': "m ! 0 = Some 0"
    and inj': "\<forall>i j. i < length m \<and> j < length m \<and> m ! i \<noteq> None \<and> m ! i = m ! j \<longrightarrow> i = j"
    by blast
  have "Inr (m, c) = (Inr (?m, 1) :: py_error + nat option list \<times> nat)"
    using ret mp by (rule trans[OF sym])
  then have m: "m = ?m" by blast
  have len: "length ?m = length c4_predicted + 1" using len' unfolding m .
  have root: "?m ! 0 = Some 0" using root' unfolding m .
  have inj: "\<forall>i j. i < length ?m \<and> j < length ?m \<and> ?m ! i \<noteq> None \<and> ?m ! i = ?m ! j \<longrightarrow> i = j"
    using inj' unfolding m .
  have "?m ! 0 \<noteq> ?m ! 1"
  proof
    assume eq: "?m ! 0 = ?m ! 1"
    have "(0::nat) < length ?m \<and> (1::nat) < length ?m \<and> ?m ! 0 \<noteq> None \<and> ?m ! 0 = ?m ! 1"
      using eq by simp
    with inj have "(0::nat) = 1" by blast
    then show False by simp
  qed
  with so mp len root show ?thesis by blast
qed

subsection \<open>Bounds\<close>

text \<open>
  C7. For well-formed input with non-empty lists \<open>get_parser_evaluation\<close> returns a record
  all of whose twelve rate fields lie between 0 and 100; the correct segmentation count is at
  most either list length, the POS and UAS match counts are at most the correct segmentation
  count, and the LAS match count is at most the UAS match count.
\<close>

theorem rates_within_bounds:
  assumes "well_formed predicted_list gold_list"
    and "predicted_list \<noteq> []" and "gold_list \<noteq> []"
  shows "\<exists>ev. get_parser_evaluation predicted_list gold_list = Inr ev
     \<and> in_percent_range (precision ev) \<and> in_percent_range (recall ev)
     \<and> in_percent_range (f1_score ev) \<and> in_percent_range (pos_acc ev)
     \<and> in_percent_range (uas_score ev) \<and> in_percent_range (uas_precision ev)
     \<and> in_percent_range (uas_recall ev) \<and> in_percent_range (uas_f1_score ev)
     \<and> in_percent_range (las_score ev) \<and> in_percent_range (las_precision ev)
     \<and> in_percent_range (las_recall ev) \<and> in_percent_range (las_f1_score ev)
     \<and> correct_count ev \<le> predicted_list_len ev \<and> correct_count ev \<le> gold_list_len ev
     \<and> pos_match ev \<le> correct_count ev \<and> uas_match ev \<le> correct_count ev
     \<and> las_match ev \<le> uas_match ev"
proof -
  let ?N = "length predicted_list" and ?M = "length gold_list"
  let ?c = "seg_count predicted_list gold_list"
  let ?p = "pos_count predicted_list gold_list"
  let ?u = "uas_count predicted_list gold_list"
  let ?l = "las_count predicted_list gold_list"
  from assms(1) have so: "alignable predicted_list gold_list" by (simp add: well_formed_def)
  have np: "0 < ?N" and ng: "0 < ?M" using assms(2,3) by simp_all
  have cN: "?c \<le> ?N" by (rule seg_count_le_predicted)
  have cM: "?c \<le> ?M" by (rule seg_count_le_gold[OF so])
  have pc: "?p \<le> ?c" by (rule pos_count_le_seg)
  have uc: "?u \<le> ?c" by (rule uas_count_le_seg)
  have lu: "?l \<le> ?u" by (rule las_count_le_uas)
  have lc: "?l \<le> ?c" using lu uc by simp
  have r1: "in_percent_range (percent ?c ?N)" by (rule percent_range[OF cN np])
  have r2: "in_percent_range (percent ?c ?M)" by (rule percent_range[OF cM ng])
  have r3: "in_percent_range (percent ?u ?N)" using uc cN np by (intro percent_range) simp_all
  have r4: "in_percent_range (percent ?u ?M)" using uc cM ng by (intro percent_range) simp_all
  have r5: "in_percent_range (percent ?l ?N)" using lc cN np by (intro percent_range) simp_all
  have r6: "in_percent_range (percent ?l ?M)" using lc cM ng by (intro percent_range) simp_all
  have g: "in_percent_range (if 0 < ?c then percent x ?c else 0)" if "x \<le> ?c" for x
    using that by (simp add: percent_range zero_in_percent_range)
  show ?thesis
    unfolding get_parser_evaluation_wf[OF assms]
    using r1 r2 r3 r4 r5 r6 g[OF pc] g[OF uc] g[OF lc] cN cM pc uc lu
      f1_range[OF r1 r2] f1_range[OF r3 r4] f1_range[OF r5 r6]
    by simp
qed

theorem rates_within_bounds_witness:
  "well_formed c4_predicted c4_gold \<and> c4_predicted \<noteq> [] \<and> c4_gold \<noteq> []
   \<and> (\<exists>ev. get_parser_evaluation c4_predicted c4_gold = Inr ev
     \<and> in_percent_range (precision ev) \<and> in_percent_range (recall ev)
     \<and> in_percent_range (f1_score ev) \<and> in_percent_range (pos_acc ev)
     \<and> in_percent_range (uas_score ev) \<and> in_percent_range (uas_precision ev)
     \<and> in_percent_range (uas_recall ev) \<and> in_percent_range (uas_f1_score ev)
     \<and> in_percent_range (las_score ev) \<and> in_percent_range (las_precision ev)
     \<and> in_percent_range (las_recall ev) \<and> in_percent_range (las_f1_score ev)
     \<and> correct_count ev \<le> predicted_list_len ev \<and> correct_count ev \<le> gold_list_len ev
     \<and> pos_match ev \<le> correct_count ev \<and> uas_match ev \<le> correct_count ev
     \<and> las_match ev \<le> uas_match ev)"
proof -
  have wf: "well_formed c4_predicted c4_gold" by code_simp
  have ne: "c4_predicted \<noteq> []" "c4_gold \<noteq> []" by (simp_all add: c4_predicted_def c4_gold_def)
  from rates_within_bounds[OF wf ne] wf ne show ?thesis by blast
qed

subsection \<open>Identical spans\<close>

text \<open>
  C8. For non-empty well-formed sequences whose token texts have the same lengths position
  by position (identical character spans), \<open>get_parser_evaluation\<close> returns a record with
  segmentation precision, recall and F1 equal to 100, whose \<open>uas_score\<close> is the plain
  attachment accuracy and whose \<open>las_score\<close> is the plain label accuracy.
\<close>

theorem identical_spans_plain_accuracy:
  assumes "well_formed predicted_list gold_list"
    and "token_lengths predicted_list = token_lengths gold_list"
    and "predicted_list \<noteq> []"
  shows "\<exists>ev. get_parser_evaluation predicted_list gold_list = Inr ev
     \<and> precision ev = 100 \<and> recall ev = 100 \<and> f1_score ev = 100
     \<and> uas_score ev = attachment_accuracy predicted_list gold_list
     \<and> las_score ev = label_accuracy predicted_list gold_list"
proof -
  have len: "length gold_list = length predicted_list"
    using assms(2) by (metis length_token_lengths)
  have np: "0 < length predicted_list" using assms(3) by simp
  have ng: "gold_list \<noteq> []" using len assms(3) by auto
  note cnt = identity_counts[OF assms(1,2)]
  have f1: "get_f1_score 100 100 = 100" by (simp add: get_f1_score_def)
  show ?thesis
    unfolding get_parser_evaluation_wf[OF assms(1,3) ng] cnt len
    using np by (simp add: percent_full f1 attachment_accuracy_def label_accuracy_def percent_def)
qed

theorem identical_spans_plain_accuracy_witness:
  "well_formed c2_predicted c2_gold
   \<and> token_lengths c2_predicted = token_lengths c2_gold \<and> c2_predicted \<noteq> []
   \<and> attachment_accuracy c2_predicted c2_gold = 100
   \<and> label_accuracy c2_predicted c2_gold = 200 / 3
   \<and> (\<exists>ev. get_parser_evaluation c2_predicted c2_gold = Inr ev
     \<and> precision ev = 100 \<and> recall ev = 100 \<and> f1_score ev = 100
     \<and> uas_score ev = 100 \<and> las_score ev = 200 / 3)"
proof -
  have wf: "well_formed c2_predicted c2_gold" by code_simp
  have tl: "token_lengths c2_predicted = token_lengths c2_gold" by code_simp
  have ne: "c2_predicted \<noteq> []" by (simp add: c2_predicted_def)
  have a: "attachment_accuracy c2_predicted c2_gold = 100" by code_simp
  have l: "label_accuracy c2_predicted c2_gold = 200 / 3" by code_simp
  from identical_spans_plain_accuracy[OF wf tl ne] wf tl ne a l show ?thesis by simp
qed

subsection \<open>The epoch level\<close>




text \<open>
  C10. On the empty list of sentence records \<open>get_epoch_evaluation\<close> returns no epoch
  record: the first rate divides by \<open>n_eval = 0\<close> and the call raises
  \<open>ZeroDivisionError\<close>. Only the sentence level has guards against a zero divisor.
\<close>

theorem epoch_evaluation_empty_raises:
  "get_epoch_evaluation [] = Inl ZeroDivisionError"
  by (simp add: get_epoch_evaluation_def py_div_def bind_result_def)

end
